theory Spec2Isabelle
  imports Complex_Main
begin

section \<open>Speaker diarization: a shallow embedding of \<^verbatim>\<open>scripts/speaker_diarize.py\<close>\<close>

text \<open>
  The embedding follows the Python source function by function and keeps its names.
  Conventions:
  \<^item> numpy's \<^verbatim>\<open>float32\<close>/\<^verbatim>\<open>float64\<close> values are idealised as \<^typ>\<open>real\<close>: every
    operation is the exact one, there is no rounding, no infinity and no NaN. Where the
    source uses \<^verbatim>\<open>float("inf")\<close> as a start value the model uses \<^term>\<open>None\<close>.
  \<^item> a one-dimensional array is a list, a matrix is a list of rows.
  \<^item> what raises in Python is a value \<^term>\<open>Inl e\<close> of a sum type.
  \<^item> \<^verbatim>\<open>load_audio_mono_16k\<close> (decoding through PyAV) is outside the model: \<open>diarize\<close>
    takes the decoded sample buffer; the sample rate it returns is always 16000.
  \<^item> numpy's random generator is a parameter: a record of the three operations the
    source calls on it.
\<close>

datatype py_error = ZeroDivisionError | ValueError | IndexError | KeyError

type_synonym vec = "real list"
type_synonym matrix = "real list list"

subsection \<open>Small numpy and Python primitives\<close>

definition np_mean :: "vec \<Rightarrow> real" where
  "np_mean v = sum_list v / real (length v)"

text \<open>\<^verbatim>\<open>xs[a:b]\<close> for indices \<open>0 \<le> a\<close> and \<open>0 \<le> b\<close>; Python clips both to the length.\<close>

definition slice :: "nat \<Rightarrow> nat \<Rightarrow> 'a list \<Rightarrow> 'a list" where
  "slice a b xs = take (b - a) (drop a xs)"

text \<open>\<^verbatim>\<open>np.all\<close> of a boolean array.\<close>

definition np_all :: "bool list \<Rightarrow> bool" where
  "np_all bs = list_all (\<lambda>b. b) bs"

text \<open>
  \<^verbatim>\<open>np.percentile(a, q)\<close> with the default linear interpolation, for a non-empty array:
  the value at the virtual index \<open>(n - 1) q / 100\<close> of the sorted array.
\<close>

definition percentile :: "vec \<Rightarrow> real \<Rightarrow> real" where
  "percentile a q =
     (let s = sort a;
          n = length s;
          pos = real (n - 1) * q / 100;
          lo = nat \<lfloor>pos\<rfloor>;
          hi = min (lo + 1) (n - 1)
      in s ! lo + (s ! hi - s ! lo) * (pos - real lo))"

subsection \<open>\<^verbatim>\<open>frame_audio\<close>\<close>

definition frame_audio :: "vec \<Rightarrow> nat \<Rightarrow> nat \<Rightarrow> py_error + matrix" where
  "frame_audio audio frame_size hop_size =
     (if length audio = 0 then Inr []
      else
        let audio' = (if length audio < frame_size
                      then audio @ replicate (frame_size - length audio) 0
                      else audio)
        in if hop_size = 0 then Inl ZeroDivisionError
           else
             let frame_count = 1 + (length audio' - frame_size) div hop_size
             in Inr (map (\<lambda>i. slice (i * hop_size) (i * hop_size + frame_size) audio')
                       [0..<frame_count]))"

subsection \<open>\<^verbatim>\<open>detect_speech_regions\<close>\<close>

text \<open>The frame-activity mask: RMS energy against the adaptive threshold.\<close>

definition frame_rms :: "vec \<Rightarrow> real" where
  "frame_rms frame = sqrt (np_mean (map (\<lambda>v. v * v) frame) + 1 / 10 ^ 10)"

definition speech_mask_of :: "matrix \<Rightarrow> bool list" where
  "speech_mask_of frames =
     (let rms = map frame_rms frames;
          noise_floor = percentile rms 20;
          threshold = max (noise_floor * 2.2) 0.015
      in map (\<lambda>r. r > threshold) rms)"

text \<open>
  Hole filling. The loop reads the original mask and writes the copy \<open>fixed\<close>:
  frame \<open>i\<close> is switched on when it is off and the \<open>hole\<close> frames before it and the
  \<open>hole\<close> frames after it are all on.
\<close>

definition fill_step :: "nat \<Rightarrow> bool list \<Rightarrow> bool list \<Rightarrow> nat \<Rightarrow> bool list" where
  "fill_step hole speech_mask fixed i =
     (if \<not> speech_mask ! i \<and> np_all (slice (i - hole) i speech_mask)
          \<and> np_all (slice (i + 1) (i + 1 + hole) speech_mask)
      then fixed[i := True] else fixed)"

definition fill_holes :: "nat \<Rightarrow> bool list \<Rightarrow> bool list" where
  "fill_holes hole speech_mask =
     (if hole > 0 \<and> length speech_mask > 2 * hole
      then foldl (fill_step hole speech_mask) speech_mask [hole..<length speech_mask - hole]
      else speech_mask)"

text \<open>Runs of active frames become intervals in seconds.\<close>

definition region_of :: "nat \<Rightarrow> nat \<Rightarrow> nat \<Rightarrow> nat \<Rightarrow> nat \<Rightarrow> real \<times> real" where
  "region_of sr hop_size frame_size start end' =
     (real (start * hop_size) / real sr,
      real (end' * hop_size) / real sr + real frame_size / real sr)"

fun scan_step :: "nat \<Rightarrow> nat \<Rightarrow> nat \<Rightarrow> nat option \<times> (real \<times> real) list \<Rightarrow> nat \<times> bool
    \<Rightarrow> nat option \<times> (real \<times> real) list" where
  "scan_step sr hop_size frame_size (None, regions) (i, active) =
     (if active then (Some i, regions) else (None, regions))"
| "scan_step sr hop_size frame_size (Some start, regions) (i, active) =
     (if active then (Some start, regions)
      else (None, regions @ [region_of sr hop_size frame_size start (i - 1)]))"

definition raw_regions :: "nat \<Rightarrow> nat \<Rightarrow> nat \<Rightarrow> bool list \<Rightarrow> (real \<times> real) list" where
  "raw_regions sr hop_size frame_size speech_mask =
     (case foldl (scan_step sr hop_size frame_size) (None, []) (enumerate 0 speech_mask) of
        (None, regions) \<Rightarrow> regions
      | (Some start, regions) \<Rightarrow>
          regions @ [region_of sr hop_size frame_size start (length speech_mask - 1)])"

text \<open>Tiny fragments are dropped, short gaps are closed.\<close>

definition merge_step :: "(real \<times> real) list \<Rightarrow> real \<times> real \<Rightarrow> (real \<times> real) list" where
  "merge_step merged r =
     (case r of (s, e) \<Rightarrow>
        if e - s < 0.65 then merged
        else if merged = [] then [(s, e)]
        else (case last merged of (prev_s, prev_e) \<Rightarrow>
                if s - prev_e \<le> 0.35 then butlast merged @ [(prev_s, e)]
                else merged @ [(s, e)]))"

definition merge_regions :: "(real \<times> real) list \<Rightarrow> (real \<times> real) list" where
  "merge_regions regions = foldl merge_step [] regions"

definition regions_of_mask :: "nat \<Rightarrow> nat \<Rightarrow> nat \<Rightarrow> bool list \<Rightarrow> (real \<times> real) list" where
  "regions_of_mask sr hop_size frame_size speech_mask =
     (let hole = nat \<lfloor>0.12 / (real hop_size / real sr)\<rfloor>
      in merge_regions (raw_regions sr hop_size frame_size (fill_holes hole speech_mask)))"

definition detect_speech_regions :: "vec \<Rightarrow> nat \<Rightarrow> py_error + (real \<times> real) list" where
  "detect_speech_regions audio sr =
     (let frame_size = nat \<lfloor>0.03 * real sr\<rfloor>;
          hop_size = nat \<lfloor>0.01 * real sr\<rfloor>
      in case frame_audio audio frame_size hop_size of
           Inl err \<Rightarrow> Inl err
         | Inr frames \<Rightarrow>
             if length frames = 0 then Inr []
             else Inr (regions_of_mask sr hop_size frame_size (speech_mask_of frames)))"

subsection \<open>Mel filterbank and cepstral transform\<close>

definition hz_to_mel :: "real \<Rightarrow> real" where
  "hz_to_mel hz = 2595 * log 10 (1 + hz / 700)"

definition mel_to_hz :: "real \<Rightarrow> real" where
  "mel_to_hz mel = 700 * (10 powr (mel / 2595) - 1)"

text \<open>\<^verbatim>\<open>np.linspace(start, stop, num)\<close>: evenly spaced, the last point is \<open>stop\<close> itself.\<close>

definition linspace :: "real \<Rightarrow> real \<Rightarrow> nat \<Rightarrow> vec" where
  "linspace start stop num =
     (if num = 0 then []
      else if num = 1 then [start]
      else map (\<lambda>i. start + real i * ((stop - start) / real (num - 1))) [0..<num - 1] @ [stop])"

text \<open>The FFT-bin indices of the band edges, after \<^verbatim>\<open>np.clip(bins, 0, n_fft // 2)\<close>.\<close>

definition mel_bins :: "nat \<Rightarrow> nat \<Rightarrow> nat \<Rightarrow> real \<Rightarrow> real \<Rightarrow> int list" where
  "mel_bins sample_rate n_fft n_mels f_min f_max =
     (let f_max' = min f_max (real sample_rate / 2 - 1);
          mel_min = hz_to_mel f_min;
          mel_max = hz_to_mel f_max';
          mel_points = linspace mel_min mel_max (n_mels + 2);
          hz_points = map mel_to_hz mel_points;
          bins = map (\<lambda>hz. \<lfloor>real (n_fft + 1) * hz / real sample_rate\<rfloor>) hz_points
      in map (\<lambda>b. min (max b 0) (int (n_fft div 2))) bins)"

text \<open>
  A division whose divisor is zero is an error value of the model, so that its absence
  can be stated (numpy itself would produce \<^verbatim>\<open>inf\<close> or \<^verbatim>\<open>nan\<close> with a warning).
\<close>

definition py_div :: "real \<Rightarrow> real \<Rightarrow> py_error + real" where
  "py_div a b = (if b = 0 then Inl ZeroDivisionError else Inr (a / b))"

text \<open>An index into an axis of length \<open>n\<close>; a negative one counts from the end.\<close>

definition np_index :: "nat \<Rightarrow> int \<Rightarrow> py_error + nat" where
  "np_index n k =
     (if 0 \<le> k \<and> k < int n then Inr (nat k)
      else if - int n \<le> k \<and> k < 0 then Inr (nat (k + int n))
      else Inl IndexError)"

text \<open>\<^verbatim>\<open>for k in ks: row[k] = f(k)\<close>\<close>

fun fb_write :: "(int \<Rightarrow> py_error + real) \<Rightarrow> int list \<Rightarrow> vec \<Rightarrow> py_error + vec" where
  "fb_write f [] row = Inr row"
| "fb_write f (k # ks) row =
     (case f k of
        Inl err \<Rightarrow> Inl err
      | Inr v \<Rightarrow>
          (case np_index (length row) k of
             Inl err \<Rightarrow> Inl err
           | Inr j \<Rightarrow> fb_write f ks (row[j := v])))"

definition mel_filter_row :: "nat \<Rightarrow> int list \<Rightarrow> nat \<Rightarrow> py_error + vec" where
  "mel_filter_row n_fft bins m =
     (let left = bins ! (m - 1);
          center0 = bins ! m;
          right0 = bins ! (m + 1);
          center = (if center0 \<le> left then left + 1 else center0);
          right1 = (if right0 \<le> center then center + 1 else right0);
          right = min right1 (int (n_fft div 2))
      in case fb_write (\<lambda>k. py_div (of_int (k - left)) (of_int (center - left)))
                [left..center - 1] (replicate (n_fft div 2 + 1) 0) of
           Inl err \<Rightarrow> Inl err
         | Inr row \<Rightarrow>
             fb_write (\<lambda>k. py_div (of_int (right - k)) (of_int (right - center)))
               [center..right - 1] row)"

text \<open>A loop that builds one element per step and stops at the first error.\<close>

fun mapE :: "('a \<Rightarrow> py_error + 'b) \<Rightarrow> 'a list \<Rightarrow> py_error + 'b list" where
  "mapE f [] = Inr []"
| "mapE f (x # xs) =
     (case f x of
        Inl err \<Rightarrow> Inl err
      | Inr y \<Rightarrow> (case mapE f xs of Inl err \<Rightarrow> Inl err | Inr ys \<Rightarrow> Inr (y # ys)))"

definition build_mel_filterbank :: "nat \<Rightarrow> nat \<Rightarrow> nat \<Rightarrow> real \<Rightarrow> real \<Rightarrow> py_error + matrix" where
  "build_mel_filterbank sample_rate n_fft n_mels f_min f_max =
     mapE (mel_filter_row n_fft (mel_bins sample_rate n_fft n_mels f_min f_max))
       [1..<n_mels + 1]"

definition build_dct_matrix :: "nat \<Rightarrow> nat \<Rightarrow> py_error + matrix" where
  "build_dct_matrix n_mels n_mfcc =
     (if n_mfcc = 0 then Inl IndexError
      else Inr (map (\<lambda>k. if k = 0 then replicate n_mels (sqrt (1 / real n_mels))
                         else map (\<lambda>n. sqrt (2 / real n_mels)
                                * cos (pi * real k * (2 * real n + 1) / (2 * real n_mels)))
                                [0..<n_mels])
                  [0..<n_mfcc]))"

subsection \<open>\<^verbatim>\<open>extract_embedding\<close>\<close>

text \<open>\<^verbatim>\<open>int(x)\<close> of a float truncates towards zero.\<close>

definition py_int :: "real \<Rightarrow> int" where
  "py_int x = (if 0 \<le> x then \<lfloor>x\<rfloor> else \<lceil>x\<rceil>)"

text \<open>\<^verbatim>\<open>xs[s:e]\<close> for any integers: a negative index counts from the end, both are clipped.\<close>

definition py_slice :: "int \<Rightarrow> int \<Rightarrow> 'a list \<Rightarrow> 'a list" where
  "py_slice s e xs =
     (let n = int (length xs);
          clip = (\<lambda>i. if i < 0 then max 0 (i + n) else min i n)
      in slice (nat (clip s)) (nat (clip e)) xs)"

definition hanning :: "nat \<Rightarrow> vec" where
  "hanning M =
     (if M = 1 then [1]
      else map (\<lambda>n. 0.5 - 0.5 * cos (2 * pi * real n / real (M - 1))) [0..<M])"

text \<open>
  \<^verbatim>\<open>np.fft.rfft(frame, n)\<close>: the frame is cut or zero-padded to \<open>n\<close> samples; the
  coefficients \<open>0 .. n div 2\<close> of its discrete Fourier transform.
\<close>

definition rfft :: "nat \<Rightarrow> vec \<Rightarrow> complex list" where
  "rfft n frame =
     (let xs = take n frame @ replicate (n - length frame) 0
      in map (\<lambda>k. \<Sum>t\<leftarrow>[0..<n]. complex_of_real (xs ! t)
                       * cis (- (2 * pi * real k * real t / real n)))
           [0..<n div 2 + 1])"

definition dot :: "vec \<Rightarrow> vec \<Rightarrow> real" where
  "dot u v = (\<Sum>(a, b)\<leftarrow>zip u v. a * b)"

text \<open>\<^verbatim>\<open>a @ b.T\<close> for matrices whose rows have the same length.\<close>

definition matmul_T :: "matrix \<Rightarrow> matrix \<Rightarrow> matrix" where
  "matmul_T a b = map (\<lambda>row. map (\<lambda>col. dot row col) b) a"

definition column :: "matrix \<Rightarrow> nat \<Rightarrow> vec" where
  "column m j = map (\<lambda>row. row ! j) m"

definition np_std :: "vec \<Rightarrow> real" where
  "np_std v = sqrt (np_mean (map (\<lambda>a. (a - np_mean v) * (a - np_mean v)) v))"

definition l2_norm :: "vec \<Rightarrow> real" where
  "l2_norm v = sqrt (\<Sum>a\<leftarrow>v. a * a)"

text \<open>
  The feature vector before normalisation, from the windowed frames: 13 cepstral means,
  13 cepstral deviations, the two centroid statistics, the duration and the mean frame RMS.
\<close>

definition embedding_feature :: "nat \<Rightarrow> real \<Rightarrow> real \<Rightarrow> matrix \<Rightarrow> matrix \<Rightarrow> matrix \<Rightarrow> vec" where
  "embedding_feature sr start_s end_s mel_fb dct frames =
     (let n_fft = 512;
          spectrum = map (rfft n_fft) frames;
          power = map (map (\<lambda>z. (cmod z)\<^sup>2 / real n_fft)) spectrum;
          mel = map (map (\<lambda>v. max v (1 / 10 ^ 10))) (matmul_T power mel_fb);
          log_mel = map (map ln) mel;
          mfcc0 = matmul_T log_mel dct;
          n_mfcc = length dct;
          means = map (\<lambda>j. np_mean (column mfcc0 j)) [0..<n_mfcc];
          mfcc = map (\<lambda>row. map2 (-) row means) mfcc0;
          freqs = map (\<lambda>k. real k * real sr / real n_fft) [0..<n_fft div 2 + 1];
          mag = map (map cmod) spectrum;
          centroid = map (\<lambda>row. dot row freqs / (sum_list row + 1 / 10 ^ 10)) mag
      in map (\<lambda>j. np_mean (column mfcc j)) [0..<n_mfcc]
         @ map (\<lambda>j. np_std (column mfcc j)) [0..<n_mfcc]
         @ [np_mean centroid / 4000,
            np_std centroid / 2000,
            end_s - start_s,
            np_mean (map (\<lambda>f. sqrt (np_mean (map (\<lambda>v. v * v) f))) frames)])"

text \<open>
  The two matrix products raise \<^verbatim>\<open>ValueError\<close> when the shapes do not fit: the filterbank
  needs \<open>n_fft div 2 + 1\<close> columns, the cepstral matrix one column per filter.
\<close>

definition extract_embedding :: "vec \<Rightarrow> nat \<Rightarrow> real \<Rightarrow> real \<Rightarrow> matrix \<Rightarrow> matrix \<Rightarrow> py_error + vec"
  where
  "extract_embedding audio sr start_s end_s mel_fb dct =
     (let s = max 0 (py_int (start_s * real sr));
          e = min (int (length audio)) (py_int (end_s * real sr));
          chunk = py_slice s e audio
      in if int (length chunk) < py_int (0.4 * real sr) then Inr (replicate 30 0)
         else
           let frame_size = nat (py_int (0.025 * real sr));
               hop_size = nat (py_int (0.01 * real sr))
           in case frame_audio chunk frame_size hop_size of
                Inl err \<Rightarrow> Inl err
              | Inr frames0 \<Rightarrow>
                  if length frames0 < 2 then Inr (replicate 30 0)
                  else
                    let frames = map (\<lambda>f. map2 (*) f (hanning frame_size)) frames0
                    in if \<not> list_all (\<lambda>r. length r = 512 div 2 + 1) mel_fb
                          \<or> \<not> list_all (\<lambda>r. length r = length mel_fb) dct
                       then Inl ValueError
                       else
                         let feature = embedding_feature sr start_s end_s mel_fb dct frames;
                             norm = l2_norm feature
                         in if norm > 1 / 10 ^ 8
                            then Inr (map (\<lambda>v. v / norm) feature)
                            else Inr feature)"

subsection \<open>The random generator\<close>

text \<open>
  \<^verbatim>\<open>np.random.default_rng(seed)\<close> and the two draws the source makes. A generator state is
  a value of type \<open>'g\<close>; a draw returns the value drawn and the next state.
  \<open>rng_integers R g n\<close> is \<^verbatim>\<open>rng.integers(0, n)\<close>, \<open>rng_choice R g n p\<close> is
  \<^verbatim>\<open>rng.choice(n, p=p)\<close>.
\<close>

record 'g rng_lib =
  default_rng :: "int \<Rightarrow> 'g"
  rng_integers :: "'g \<Rightarrow> nat \<Rightarrow> nat \<times> 'g"
  rng_choice :: "'g \<Rightarrow> nat \<Rightarrow> vec \<Rightarrow> nat \<times> 'g"

text \<open>numpy's contract: a draw from \<open>n > 0\<close> indices lies below \<open>n\<close>.\<close>

definition rng_ok :: "'g rng_lib \<Rightarrow> bool" where
  "rng_ok R \<longleftrightarrow>
     (\<forall>g n. 0 < n \<longrightarrow> fst (rng_integers R g n) < n) \<and>
     (\<forall>g n p. 0 < n \<longrightarrow> fst (rng_choice R g n p) < n)"

text \<open>\<^verbatim>\<open>rng.integers(0, n)\<close> raises \<^verbatim>\<open>ValueError\<close> when \<open>n = 0\<close>.\<close>

definition draw_integers :: "'g rng_lib \<Rightarrow> 'g \<Rightarrow> nat \<Rightarrow> py_error + nat \<times> 'g" where
  "draw_integers R g n = (if n = 0 then Inl ValueError else Inr (rng_integers R g n))"

subsection \<open>\<^verbatim>\<open>pairwise_distances\<close>, \<^verbatim>\<open>kmeans_pp_init\<close>, \<^verbatim>\<open>run_kmeans\<close>\<close>

definition pairwise_distances :: "matrix \<Rightarrow> matrix" where
  "pairwise_distances x =
     (let sq = map (\<lambda>row. \<Sum>a\<leftarrow>row. a * a) x
      in map (\<lambda>i. map (\<lambda>j. sqrt (max (sq ! i + sq ! j - 2 * dot (x ! i) (x ! j)) 0))
                    [0..<length x])
           [0..<length x])"

text \<open>\<^verbatim>\<open>np.sum((x - c) ** 2, axis=1)\<close>\<close>

definition sq_dists_to :: "matrix \<Rightarrow> vec \<Rightarrow> vec" where
  "sq_dists_to x c = map (\<lambda>row. \<Sum>(a, b)\<leftarrow>zip row c. (a - b)\<^sup>2) x"

text \<open>The draw of the next center inside the seeding loop.\<close>

definition next_center_draw :: "'g rng_lib \<Rightarrow> 'g \<Rightarrow> nat \<Rightarrow> vec \<Rightarrow> py_error + nat \<times> 'g" where
  "next_center_draw R g n closest_dist_sq =
     (let total = sum_list closest_dist_sq
      in if total \<le> 1 / 10 ^ 12 then draw_integers R g n
         else
           let probs = map (\<lambda>d. min (max (d / total) 0) 1) closest_dist_sq;
               probs_sum = sum_list probs
           in if probs_sum \<le> 1 / 10 ^ 12 then draw_integers R g n
              else Inr (rng_choice R g n (map (\<lambda>p. p / probs_sum) probs)))"

fun kmeans_pp_loop :: "'g rng_lib \<Rightarrow> matrix \<Rightarrow> nat list \<Rightarrow> 'g \<Rightarrow> matrix \<Rightarrow> vec
    \<Rightarrow> py_error + matrix" where
  "kmeans_pp_loop R x [] g centers closest_dist_sq = Inr centers"
| "kmeans_pp_loop R x (c # cs) g centers closest_dist_sq =
     (case next_center_draw R g (length x) closest_dist_sq of
        Inl err \<Rightarrow> Inl err
      | Inr (idx, g') \<Rightarrow>
          if length x \<le> idx then Inl IndexError
          else kmeans_pp_loop R x cs g' (centers[c := x ! idx])
                 (map2 min closest_dist_sq (sq_dists_to x (x ! idx))))"

definition kmeans_pp_init :: "matrix \<Rightarrow> nat \<Rightarrow> 'g rng_lib \<Rightarrow> 'g \<Rightarrow> py_error + matrix" where
  "kmeans_pp_init x k R g =
     (case draw_integers R g (length x) of
        Inl err \<Rightarrow> Inl err
      | Inr (idx, g') \<Rightarrow>
          if length x \<le> idx \<or> k = 0 then Inl IndexError
          else
            let centers = replicate k (replicate (length (hd x)) 0)
            in kmeans_pp_loop R x [1..<k] g' (centers[0 := x ! idx])
                 (sq_dists_to x (x ! idx)))"

text \<open>\<^verbatim>\<open>np.argmin\<close>, \<^verbatim>\<open>np.argmax\<close> and \<^verbatim>\<open>np.min\<close> of a non-empty array; the first extremum wins.\<close>

definition np_argmin :: "vec \<Rightarrow> nat" where
  "np_argmin v =
     fst (foldl (\<lambda>(bi, bv) (i, a). if a < bv then (i, a) else (bi, bv)) (0, hd v)
            (enumerate 0 v))"

definition np_argmax :: "vec \<Rightarrow> nat" where
  "np_argmax v =
     fst (foldl (\<lambda>(bi, bv) (i, a). if a > bv then (i, a) else (bi, bv)) (0, hd v)
            (enumerate 0 v))"

definition np_min :: "vec \<Rightarrow> real" where
  "np_min v = foldl min (hd v) (tl v)"

text \<open>\<^verbatim>\<open>np.mean(members, axis=0)\<close> of a matrix with at least one row.\<close>

definition mean_rows :: "matrix \<Rightarrow> vec" where
  "mean_rows members = map (\<lambda>j. np_mean (column members j)) [0..<length (hd members)]"

definition update_center :: "matrix \<Rightarrow> matrix \<Rightarrow> nat list \<Rightarrow> matrix \<Rightarrow> nat \<Rightarrow> matrix" where
  "update_center x dist' labels centers j =
     (let members = map fst (filter (\<lambda>(row, l). l = j) (zip x labels))
      in if length members = 0
         then centers[j := x ! np_argmax (map np_min dist')]
         else centers[j := mean_rows members])"

text \<open>The iteration, \<^verbatim>\<open>for _ in range(max_iter)\<close> with its \<^verbatim>\<open>break\<close>.\<close>

fun kmeans_iterate :: "nat \<Rightarrow> matrix \<Rightarrow> nat \<Rightarrow> nat list \<times> matrix \<Rightarrow> nat list \<times> matrix" where
  "kmeans_iterate 0 x k (labels, centers) = (labels, centers)"
| "kmeans_iterate (Suc it) x k (labels, centers) =
     (let d = pairwise_distances (x @ centers);
          dist' = map (drop (length x)) (take (length x) d);
          new_labels = map np_argmin dist'
      in if new_labels = labels then (labels, centers)
         else kmeans_iterate it x k
                (new_labels, foldl (update_center x dist' new_labels) centers [0..<k]))"

definition run_kmeans :: "'g rng_lib \<Rightarrow> matrix \<Rightarrow> nat \<Rightarrow> int \<Rightarrow> nat
    \<Rightarrow> py_error + nat list \<times> matrix \<times> real" where
  "run_kmeans R x k seed max_iter =
     (case kmeans_pp_init x k R (default_rng R seed) of
        Inl err \<Rightarrow> Inl err
      | Inr centers0 \<Rightarrow>
          (case kmeans_iterate max_iter x k (replicate (length x) 0, centers0) of
             (labels, centers) \<Rightarrow>
               let final_dist = map2 (\<lambda>row l. l2_norm (map2 (-) row (centers ! l))) x labels;
                   inertia = (\<Sum>d\<leftarrow>final_dist. d\<^sup>2)
               in Inr (labels, centers, inertia)))"

subsection \<open>\<^verbatim>\<open>silhouette_score\<close>\<close>

text \<open>\<open>v[mask]\<close>: the entries of \<open>v\<close> at the positions where the mask holds.\<close>

definition masked :: "'a list \<Rightarrow> bool list \<Rightarrow> 'a list" where
  "masked v msk = map fst (filter snd (zip v msk))"

text \<open>The inner loop over the other clusters; \<^term>\<open>None\<close> is \<^verbatim>\<open>float("inf")\<close>.\<close>

definition sil_b_step :: "vec \<Rightarrow> nat list \<Rightarrow> nat \<Rightarrow> real option \<Rightarrow> nat \<Rightarrow> real option" where
  "sil_b_step d_i labels own b c =
     (if c = own then b
      else
        let other = map (\<lambda>l. l = c) labels
        in if \<not> list_ex (\<lambda>t. t) other then b
           else (case b of
                   None \<Rightarrow> Some (np_mean (masked d_i other))
                 | Some b' \<Rightarrow> Some (min b' (np_mean (masked d_i other)))))"

definition sil_point :: "matrix \<Rightarrow> nat list \<Rightarrow> nat list \<Rightarrow> nat \<Rightarrow> real" where
  "sil_point d labels uniq i =
     (let same = map (\<lambda>l. l = labels ! i) labels;
          same_count = length (filter (\<lambda>t. t) same);
          a = (if same_count \<le> 1 then 0
               else sum_list (masked (d ! i) same) / real (same_count - 1));
          b = foldl (sil_b_step (d ! i) labels (labels ! i)) None uniq
      in case b of
           None \<Rightarrow> 0
         | Some b' \<Rightarrow>
             let denom = max a b'
             in if denom \<le> 1 / 10 ^ 12 then 0 else (b' - a) / denom)"

definition silhouette_score :: "matrix \<Rightarrow> nat list \<Rightarrow> real" where
  "silhouette_score x labels =
     (let n = length x;
          uniq = sort (remdups labels)
      in if length uniq \<le> 1 \<or> length uniq \<ge> n then - 1
         else
           let d = pairwise_distances x;
               scores = map (sil_point d labels uniq) [0..<n]
           in if scores = [] then - 1 else np_mean scores)"

subsection \<open>\<^verbatim>\<open>choose_speaker_count\<close>\<close>

text \<open>
  \<^verbatim>\<open>for seed in (7, 17, 31)\<close>: the labels of the run with the lowest inertia. The state is
  \<open>(best labels, best inertia)\<close>, both \<^term>\<open>None\<close> at the start (\<^verbatim>\<open>None\<close> and
  \<^verbatim>\<open>float("inf")\<close>). The source has this loop twice, in \<^verbatim>\<open>choose_speaker_count\<close> and in
  \<^verbatim>\<open>diarize\<close>.
\<close>

fun best_over_seeds :: "'g rng_lib \<Rightarrow> matrix \<Rightarrow> nat \<Rightarrow> int list
    \<Rightarrow> nat list option \<times> real option \<Rightarrow> py_error + nat list option" where
  "best_over_seeds R x k [] (best_labels, best_inertia) = Inr best_labels"
| "best_over_seeds R x k (seed # seeds) (best_labels, best_inertia) =
     (case run_kmeans R x k seed 60 of
        Inl err \<Rightarrow> Inl err
      | Inr (labels, centers, inertia) \<Rightarrow>
          if (case best_inertia of None \<Rightarrow> True | Some b \<Rightarrow> inertia < b)
          then best_over_seeds R x k seeds (Some labels, Some inertia)
          else best_over_seeds R x k seeds (best_labels, best_inertia))"

definition seeds :: "int list" where
  "seeds = [7, 17, 31]"

fun choose_loop :: "'g rng_lib \<Rightarrow> matrix \<Rightarrow> int list \<Rightarrow> int \<times> real \<Rightarrow> py_error + int \<times> real"
  where
  "choose_loop R x [] (best_k, best_score) = Inr (best_k, best_score)"
| "choose_loop R x (k # ks) (best_k, best_score) =
     (case best_over_seeds R x (nat k) seeds (None, None) of
        Inl err \<Rightarrow> Inl err
      | Inr None \<Rightarrow> choose_loop R x ks (best_k, best_score)
      | Inr (Some best_for_k) \<Rightarrow>
          let sil = silhouette_score x best_for_k - 0.02 * of_int (k - 1)
          in if sil > best_score then choose_loop R x ks (k, sil)
             else choose_loop R x ks (best_k, best_score))"

definition choose_speaker_count :: "'g rng_lib \<Rightarrow> matrix \<Rightarrow> int \<Rightarrow> int \<Rightarrow> py_error + int" where
  "choose_speaker_count R x min_speakers max_speakers =
     (let n = length x;
          max_k = min max_speakers (int n);
          min_k = min min_speakers max_k
      in if n < 3 \<or> max_k \<le> 1 then Inr 1
         else
           (case choose_loop R x [max 2 min_k..max_k] (1, - 1) of
              Inl err \<Rightarrow> Inl err
            | Inr (best_k, best_score) \<Rightarrow>
                if best_score < 0.10 then Inr 1 else Inr (max 1 best_k)))"

subsection \<open>\<^verbatim>\<open>diarize\<close>\<close>

record speech_region =
  r_start :: real
  r_end :: real
  embedding :: vec
  label :: nat

record segment =
  seg_start :: real
  seg_end :: real
  speaker :: string

record diarization =
  segments :: "segment list"
  num_speakers :: nat

definition empty_result :: diarization where
  "empty_result = \<lparr>segments = [], num_speakers = 0\<rparr>"

text \<open>The decimal digits of a number, as \<^verbatim>\<open>f"{idx + 1}"\<close> prints it.\<close>

definition digit_char :: "nat \<Rightarrow> char" where
  "digit_char d = char_of (48 + d)"

fun show_nat :: "nat \<Rightarrow> string" where
  "show_nat n =
     (if n < 10 then [digit_char n] else show_nat (n div 10) @ [digit_char (n mod 10)])"

text \<open>
  A dictionary in insertion order is a list of pairs with distinct keys;
  \<^verbatim>\<open>d.setdefault(k, v)\<close> adds the key at the end when it is new.
\<close>

definition setdefault :: "('k \<times> 'v) list \<Rightarrow> 'k \<Rightarrow> 'v \<Rightarrow> ('k \<times> 'v) list" where
  "setdefault d k v = (if k \<in> set (map fst d) then d else d @ [(k, v)])"

definition label_first_seen_of :: "speech_region list \<Rightarrow> (nat \<times> real) list" where
  "label_first_seen_of regions = foldl (\<lambda>d r. setdefault d (label r) (r_start r)) [] regions"

text \<open>\<^verbatim>\<open>sorted(label_first_seen.keys(), key=...)\<close>: a stable sort of the keys by their value.\<close>

definition ordered_labels :: "(nat \<times> real) list \<Rightarrow> nat list" where
  "ordered_labels label_first_seen = map fst (sort_key snd label_first_seen)"

definition label_to_name_of :: "nat list \<Rightarrow> (nat \<times> string) list" where
  "label_to_name_of ordered =
     map (\<lambda>(idx, l). (l, ''Participant '' @ show_nat (idx + 1))) (enumerate 0 ordered)"

text \<open>
  The body of the merge loop for a region whose speaker name is \<open>spk\<close>; the source
  updates \<open>merged[-1]\<close> in place.
\<close>

definition max_merge_gap :: real where
  "max_merge_gap = 0.45"

definition seg_step :: "segment list \<Rightarrow> speech_region \<Rightarrow> string \<Rightarrow> segment list" where
  "seg_step merged r spk =
     (if merged = [] then [\<lparr>seg_start = r_start r, seg_end = r_end r, speaker = spk\<rparr>]
      else
        let prev = last merged
        in if speaker prev = spk \<and> r_start r - seg_end prev \<le> max_merge_gap
           then butlast merged @ [prev\<lparr>seg_end := max (seg_end prev) (r_end r)\<rparr>]
           else merged @ [\<lparr>seg_start = r_start r, seg_end = r_end r, speaker = spk\<rparr>])"

text \<open>The loop; \<open>label_to_name[r.label]\<close> raises \<^verbatim>\<open>KeyError\<close> for a missing key.\<close>

fun merge_segments :: "(nat \<times> string) list \<Rightarrow> speech_region list \<Rightarrow> segment list
    \<Rightarrow> py_error + segment list" where
  "merge_segments label_to_name [] merged = Inr merged"
| "merge_segments label_to_name (r # rs) merged =
     (case map_of label_to_name (label r) of
        None \<Rightarrow> Inl KeyError
      | Some spk \<Rightarrow> merge_segments label_to_name rs (seg_step merged r spk))"

text \<open>Label stabilisation and merging: the last part of \<^verbatim>\<open>diarize\<close>.\<close>

definition assemble :: "speech_region list \<Rightarrow> py_error + diarization" where
  "assemble regions =
     (let label_first_seen = label_first_seen_of regions;
          ordered = ordered_labels label_first_seen;
          label_to_name = label_to_name_of ordered
      in case merge_segments label_to_name regions [] of
           Inl err \<Rightarrow> Inl err
         | Inr merged \<Rightarrow> Inr \<lparr>segments = merged, num_speakers = length ordered\<rparr>)"

text \<open>One region per speech interval, with its embedding.\<close>

definition embed_regions :: "vec \<Rightarrow> nat \<Rightarrow> matrix \<Rightarrow> matrix \<Rightarrow> (real \<times> real) list
    \<Rightarrow> py_error + speech_region list" where
  "embed_regions audio sr mel_fb dct speech =
     mapE (\<lambda>(s, e). case extract_embedding audio sr s e mel_fb dct of
                       Inl err \<Rightarrow> Inl err
                     | Inr emb \<Rightarrow> Inr \<lparr>r_start = s, r_end = e, embedding = emb, label = 0\<rparr>)
       speech"

text \<open>The cluster labels: all zero for one speaker, else the best of the three seeded runs.\<close>

definition final_labels :: "'g rng_lib \<Rightarrow> matrix \<Rightarrow> int \<Rightarrow> py_error + nat list" where
  "final_labels R x k =
     (if k \<le> 1 then Inr (replicate (length x) 0)
      else
        (case best_over_seeds R x (nat k) seeds (None, None) of
           Inl err \<Rightarrow> Inl err
         | Inr None \<Rightarrow> Inr (replicate (length x) 0)
         | Inr (Some best_labels) \<Rightarrow> Inr best_labels))"

definition diarize :: "'g rng_lib \<Rightarrow> vec \<Rightarrow> int \<Rightarrow> int \<Rightarrow> py_error + diarization" where
  "diarize R audio min_speakers max_speakers =
     (let sr = 16000
      in if length audio = 0 then Inr empty_result
         else
           (case detect_speech_regions audio sr of
              Inl err \<Rightarrow> Inl err
            | Inr speech \<Rightarrow>
                if speech = [] then Inr empty_result
                else
                  (case build_mel_filterbank sr 512 24 80 7600 of
                     Inl err \<Rightarrow> Inl err
                   | Inr mel_fb \<Rightarrow>
                  (case build_dct_matrix 24 13 of
                     Inl err \<Rightarrow> Inl err
                   | Inr dct \<Rightarrow>
                  (case embed_regions audio sr mel_fb dct speech of
                     Inl err \<Rightarrow> Inl err
                   | Inr regions \<Rightarrow>
                       let x = map embedding regions
                       in if length x = 0 then Inr empty_result
                          else
                            (case choose_speaker_count R x min_speakers max_speakers of
                               Inl err \<Rightarrow> Inl err
                             | Inr k \<Rightarrow>
                            (case final_labels R x k of
                               Inl err \<Rightarrow> Inl err
                             | Inr labels \<Rightarrow>
                                 if length labels < length regions then Inl IndexError
                                 else assemble (map2 (\<lambda>r l. r\<lparr>label := l\<rparr>) regions labels))))))))"

section \<open>Properties\<close>

subsection \<open>Notions the statements use\<close>

text \<open>The time in seconds at which frame \<open>j\<close> begins.\<close>

definition pos :: "nat \<Rightarrow> nat \<Rightarrow> nat \<Rightarrow> real" where
  "pos sr hop_size j = real (j * hop_size) / real sr"

text \<open>
  The invariant of the scan over the mask, before frame \<open>n\<close>: the intervals found so far
  are ordered by their start, and none starts after the open run (or after frame \<open>n\<close>).
\<close>

definition scan_inv :: "nat \<Rightarrow> nat \<Rightarrow> nat \<Rightarrow> nat option \<times> (real \<times> real) list \<Rightarrow> bool" where
  "scan_inv sr hop n st =
     (case st of (start, regions) \<Rightarrow>
        sorted (map fst regions) \<and>
        (\<forall>r \<in> set regions. fst r \<le> pos sr hop (case start of None \<Rightarrow> n | Some s \<Rightarrow> s)) \<and>
        (case start of None \<Rightarrow> True | Some s \<Rightarrow> s \<le> n))"

text \<open>
  What the detector guarantees of its intervals: each lasts at least 0.65 s, and each
  begins more than 0.35 s after the one before it has ended.
\<close>

definition well_separated :: "(real \<times> real) list \<Rightarrow> bool" where
  "well_separated rs \<longleftrightarrow>
     list_all (\<lambda>r. fst r + 0.65 \<le> snd r) rs \<and> sorted_wrt (\<lambda>a b. snd a + 0.35 < fst b) rs"


definition seg_geometry :: "segment list \<Rightarrow> bool" where
  "seg_geometry segs \<longleftrightarrow>
     list_all (\<lambda>s. seg_start s < seg_end s) segs \<and>
     sorted_wrt (\<lambda>a b. seg_end a < seg_start b) segs"

definition region_chain :: "speech_region list \<Rightarrow> bool" where
  "region_chain rs \<longleftrightarrow>
     list_all (\<lambda>r. r_start r < r_end r) rs \<and>
     sorted_wrt (\<lambda>a b. r_end a < r_start b) rs"

text \<open>
  A generator that satisfies the contract, for the instances below: its state is a
  counter, and a draw from \<open>n\<close> indices is the counter modulo \<open>n\<close>.
\<close>

definition cycle_rng :: "nat rng_lib" where
  "cycle_rng = \<lparr>default_rng = (\<lambda>seed. nat \<bar>seed\<bar>),
                rng_integers = (\<lambda>g n. (g mod n, Suc g)),
                rng_choice = (\<lambda>g n p. (g mod n, Suc g))\<rparr>"



text \<open>
  The test of the hole-filling loop at frame \<open>i\<close>, on the mask as it was before the
  loop.
\<close>

definition fills :: "nat \<Rightarrow> bool list \<Rightarrow> nat \<Rightarrow> bool" where
  "fills hole m i \<longleftrightarrow>
     \<not> m ! i \<and> np_all (slice (i - hole) i m) \<and> np_all (slice (i + 1) (i + 1 + hole) m)"

text \<open>
  The total variance of the claim on one cluster: the sum of the squared distances of the
  points to the mean of all points.
\<close>

definition total_variance :: "matrix \<Rightarrow> real" where
  "total_variance x = sum_list (sq_dists_to x (mean_rows x))"

subsection \<open>The silhouette in the words of the claim\<close>

text \<open>The distance of two points.\<close>

definition euclid :: "vec \<Rightarrow> vec \<Rightarrow> real" where
  "euclid u v = sqrt (\<Sum>(a, b)\<leftarrow>zip u v. (a - b)\<^sup>2)"

text \<open>The indices of the points of cluster \<open>c\<close>, and a mean distance from point \<open>i\<close>.\<close>

definition cluster_members :: "nat list \<Rightarrow> nat \<Rightarrow> nat list" where
  "cluster_members labels c = filter (\<lambda>j. labels ! j = c) [0..<length labels]"

definition mean_distance :: "matrix \<Rightarrow> nat \<Rightarrow> nat list \<Rightarrow> real" where
  "mean_distance x i js = (\<Sum>j\<leftarrow>js. euclid (x ! i) (x ! j)) / real (length js)"

text \<open>
  \<open>a\<close>: the mean distance to the other members of the point's cluster, undefined
  (\<^term>\<open>None\<close>) when there is no other member. \<open>b\<close>: the least mean distance to the
  members of another cluster, undefined when there is no other cluster.
\<close>

definition intra_distance :: "matrix \<Rightarrow> nat list \<Rightarrow> nat \<Rightarrow> real option" where
  "intra_distance x labels i =
     (let others = filter (\<lambda>j. j \<noteq> i) (cluster_members labels (labels ! i))
      in if others = [] then None else Some (mean_distance x i others))"

definition nearest_distance :: "matrix \<Rightarrow> nat list \<Rightarrow> nat \<Rightarrow> real option" where
  "nearest_distance x labels i =
     (let cs = filter (\<lambda>c. c \<noteq> labels ! i) (remdups labels)
      in if cs = [] then None
         else Some (Min (set (map (\<lambda>c. mean_distance x i (cluster_members labels c)) cs))))"



text \<open>
  The claim as amended: an undefined \<open>a\<close> counts as 0, and a point whose \<open>max a b\<close> is
  at most \<open>1e-12\<close> contributes 0.
\<close>

definition amended_point :: "matrix \<Rightarrow> nat list \<Rightarrow> nat \<Rightarrow> real" where
  "amended_point x labels i =
     (case nearest_distance x labels i of
        None \<Rightarrow> 0
      | Some b \<Rightarrow>
          let a = (case intra_distance x labels i of None \<Rightarrow> 0 | Some a \<Rightarrow> a)
          in if max a b \<le> 1 / 10 ^ 12 then 0 else (b - a) / max a b)"

definition amended_silhouette :: "matrix \<Rightarrow> nat list \<Rightarrow> real" where
  "amended_silhouette x labels = np_mean (map (amended_point x labels) [0..<length x])"


subsection \<open>The detector: ordered, well separated intervals\<close>

lemma pos_mono: "i \<le> j \<Longrightarrow> pos sr hop i \<le> pos sr hop j"
  unfolding pos_def by (intro divide_right_mono) (auto intro: mult_right_mono)

lemma fst_region_of: "fst (region_of sr hop fs s e) = pos sr hop s"
  by (simp add: region_of_def pos_def)

lemma scan_step_inv:
  assumes "scan_inv sr hop n st"
  shows "scan_inv sr hop (Suc n) (scan_step sr hop fs st (n, active))"
proof (cases st)
  case (Pair start regions)
  show ?thesis
  proof (cases start)
    case None
    with assms Pair show ?thesis
      using pos_mono[of n "Suc n" sr hop]
      by (auto simp: scan_inv_def intro: order_trans)
  next
    case (Some s)
    with assms Pair show ?thesis
      using pos_mono[of s "Suc n" sr hop]
      by (auto simp: scan_inv_def sorted_append fst_region_of intro: order_trans)
  qed
qed

lemma scan_foldl_inv:
  "scan_inv sr hop n st \<Longrightarrow>
   scan_inv sr hop (n + length msk) (foldl (scan_step sr hop fs) st (enumerate n msk))"
proof (induction msk arbitrary: n st)
  case Nil then show ?case by simp
next
  case (Cons a msk)
  from scan_step_inv[OF Cons.prems] have "scan_inv sr hop (Suc n) (scan_step sr hop fs st (n, a))" .
  from Cons.IH[OF this] show ?case by simp
qed

lemma raw_regions_sorted: "sorted (map fst (raw_regions sr hop fs msk))"
proof -
  have "scan_inv sr hop 0 (None, [])" by (simp add: scan_inv_def)
  from scan_foldl_inv[OF this, of msk fs]
  have inv: "scan_inv sr hop (length msk) (foldl (scan_step sr hop fs) (None, []) (enumerate 0 msk))"
    by simp
  obtain start regions where st: "foldl (scan_step sr hop fs) (None, []) (enumerate 0 msk) = (start, regions)"
    by (cases "foldl (scan_step sr hop fs) (None, []) (enumerate 0 msk)")
  show ?thesis
    using inv unfolding raw_regions_def st
    by (cases start) (auto simp: scan_inv_def sorted_append fst_region_of)
qed

text \<open>Dropping short intervals and closing short gaps keeps the intervals apart.\<close>

lemma merge_step_inv:
  assumes "well_separated m" "m \<noteq> [] \<Longrightarrow> fst (last m) \<le> fst r"
  shows "well_separated (merge_step m r) \<and> (merge_step m r \<noteq> [] \<longrightarrow> fst (last (merge_step m r)) \<le> fst r)"
proof (cases r)
  case (Pair s e)
  show ?thesis
  proof (cases "m = []")
    case True
    then show ?thesis using Pair by (auto simp: merge_step_def well_separated_def)
  next
    case False
    then obtain ms l where m: "m = ms @ [l]" by (metis rev_exhaust)
    obtain ps pe where l: "l = (ps, pe)" by (cases l)
    from assms m l Pair have le: "ps \<le> s" by simp
    from assms(1) m l have sep: "list_all (\<lambda>r. fst r + 0.65 \<le> snd r) ms" "ps + 0.65 \<le> pe"
      "sorted_wrt (\<lambda>a b. snd a + 0.35 < fst b) ms" "\<forall>a\<in>set ms. snd a + 0.35 < ps"
      by (auto simp: well_separated_def sorted_wrt_append)
    show ?thesis using le sep
      unfolding merge_step_def Pair m l
      by (auto simp: well_separated_def sorted_wrt_append)
  qed
qed

lemma merge_foldl_inv:
  "well_separated m \<Longrightarrow> sorted (map fst rs) \<Longrightarrow> (m \<noteq> [] \<Longrightarrow> \<forall>r\<in>set rs. fst (last m) \<le> fst r)
   \<Longrightarrow> well_separated (foldl merge_step m rs)"
proof (induction rs arbitrary: m)
  case Nil then show ?case by simp
next
  case (Cons r rs)
  have a: "m \<noteq> [] \<Longrightarrow> fst (last m) \<le> fst r" using Cons.prems(3) by simp
  from merge_step_inv[OF Cons.prems(1) a]
  have w: "well_separated (merge_step m r)"
    and l: "merge_step m r \<noteq> [] \<Longrightarrow> fst (last (merge_step m r)) \<le> fst r" by auto
  have "merge_step m r \<noteq> [] \<Longrightarrow> \<forall>r'\<in>set rs. fst (last (merge_step m r)) \<le> fst r'"
    using l Cons.prems(2) by fastforce
  with Cons.IH[OF w] Cons.prems(2) show ?case by simp
qed

lemma regions_of_mask_separated: "well_separated (regions_of_mask sr hop fs msk)"
  unfolding regions_of_mask_def Let_def merge_regions_def
  by (rule merge_foldl_inv) (auto simp: well_separated_def raw_regions_sorted)

lemma detect_separated:
  "detect_speech_regions audio sr = Inr speech \<Longrightarrow> well_separated speech"
  unfolding detect_speech_regions_def Let_def
  by (auto split: sum.splits if_splits simp: regions_of_mask_separated)
     (simp add: well_separated_def)

subsection \<open>Speaker names\<close>

declare show_nat.simps [simp del]

lemma digit_char_inj: "a < 10 \<Longrightarrow> b < 10 \<Longrightarrow> digit_char a = digit_char b \<Longrightarrow> a = b"
proof -
  assume a: "a < 10" and b: "b < 10" and e: "digit_char a = digit_char b"
  from e have "of_char (char_of (48 + a) :: char) = (of_char (char_of (48 + b) :: char) :: nat)"
    by (simp add: digit_char_def)
  then have "(48 + a) mod 256 = (48 + b) mod 256" by (simp add: of_char_of)
  with a b show "a = b" by simp
qed

lemma show_nat_nonempty: "show_nat n \<noteq> []"
  by (subst show_nat.simps) simp

lemma show_nat_inj: "show_nat m = show_nat n \<Longrightarrow> m = n"
proof (induction m arbitrary: n rule: show_nat.induct)
  case (1 m)
  show ?case
  proof (cases "m < 10")
    case True
    then have lm: "show_nat m = [digit_char m]" by (subst show_nat.simps) simp
    show ?thesis
    proof (cases "n < 10")
      case True
      then have "show_nat n = [digit_char n]" by (subst show_nat.simps) simp
      with lm "1.prems" \<open>m < 10\<close> True show ?thesis by (auto dest: digit_char_inj)
    next
      case False
      then have "show_nat n = show_nat (n div 10) @ [digit_char (n mod 10)]"
        by (subst show_nat.simps) simp
      with lm "1.prems" show_nat_nonempty[of "n div 10"] show ?thesis by (cases "show_nat (n div 10)") auto
    qed
  next
    case False
    then have lm: "show_nat m = show_nat (m div 10) @ [digit_char (m mod 10)]"
      by (subst show_nat.simps) simp
    show ?thesis
    proof (cases "n < 10")
      case True
      then have "show_nat n = [digit_char n]" by (subst show_nat.simps) simp
      with lm "1.prems" show_nat_nonempty[of "m div 10"] show ?thesis by (cases "show_nat (m div 10)") auto
    next
      case F2: False
      then have ln: "show_nat n = show_nat (n div 10) @ [digit_char (n mod 10)]"
        by (subst show_nat.simps) simp
      from lm ln "1.prems" have e1: "show_nat (m div 10) = show_nat (n div 10)"
        and e2: "digit_char (m mod 10) = digit_char (n mod 10)" by auto
      from "1.IH"[OF False e1] have "m div 10 = n div 10" .
      moreover have "m mod 10 = n mod 10" by (rule digit_char_inj[OF _ _ e2]) auto
      ultimately show ?thesis by (metis div_mult_mod_eq)
    qed
  qed
qed

text \<open>The dictionary of first appearances holds every label once.\<close>

lemma setdefault_keys:
  "distinct (map fst d) \<Longrightarrow> distinct (map fst (setdefault d k v))"
  "set (map fst (setdefault d k v)) = insert k (set (map fst d))"
  by (auto simp: setdefault_def)

lemma lfs_foldl:
  "distinct (map fst d) \<Longrightarrow>
   distinct (map fst (foldl (\<lambda>d r. setdefault d (label r) (r_start r)) d rs)) \<and>
   set (map fst (foldl (\<lambda>d r. setdefault d (label r) (r_start r)) d rs)) = set (map fst d) \<union> label ` set rs"
proof (induction rs arbitrary: d)
  case Nil then show ?case by simp
next
  case (Cons r rs)
  from Cons.IH[OF setdefault_keys(1)[OF Cons.prems]] show ?case
    by (simp add: setdefault_keys(2)[simplified])
qed

lemma ordered_labels_props:
  "distinct (ordered_labels (label_first_seen_of rs))"
  "set (ordered_labels (label_first_seen_of rs)) = label ` set rs"
proof -
  let ?d = "label_first_seen_of rs"
  have d: "distinct (map fst ?d)" "set (map fst ?d) = label ` set rs"
    using lfs_foldl[of "[]" rs] by (auto simp: label_first_seen_of_def)
  have "distinct (map fst (sort_key snd ?d)) = distinct (map fst ?d)"
    by (simp add: distinct_map)
  with d show "distinct (ordered_labels ?d)" by (simp add: ordered_labels_def)
  show "set (ordered_labels ?d) = label ` set rs" using d by (simp add: ordered_labels_def)
qed

lemma l2n_enum:
  "map_of (map (\<lambda>(idx, l). (l, f idx)) (enumerate n ordered)) l = Some s \<Longrightarrow>
   \<exists>i < length ordered. ordered ! i = l \<and> s = f (n + i)"
proof (induction ordered arbitrary: n)
  case Nil then show ?case by simp
next
  case (Cons a ordered)
  show ?case
  proof (cases "a = l")
    case True with Cons.prems show ?thesis by auto
  next
    case False
    with Cons.prems have "map_of (map (\<lambda>(idx, l). (l, f idx)) (enumerate (Suc n) ordered)) l = Some s" by simp
    from Cons.IH[OF this] obtain i where "i < length ordered" "ordered ! i = l" "s = f (Suc n + i)" by auto
    then show ?thesis by (intro exI[of _ "Suc i"]) auto
  qed
qed

lemma l2n_keys: "map fst (label_to_name_of ordered) = ordered"
proof -
  have "map fst (label_to_name_of ordered) = map snd (enumerate 0 ordered)"
    by (simp add: label_to_name_of_def case_prod_unfold comp_def)
  then show ?thesis by simp
qed

lemma l2n_dom:
  "l \<in> set ordered \<Longrightarrow> \<exists>s. map_of (label_to_name_of ordered) l = Some s"
proof -
  assume "l \<in> set ordered"
  then have "l \<in> fst ` set (label_to_name_of ordered)"
    using l2n_keys[of ordered] by (metis set_map)
  then show ?thesis by (metis domIff dom_map_of_conv_image_fst not_None_eq)
qed

lemma l2n_inj:
  assumes "distinct ordered"
    and "map_of (label_to_name_of ordered) l = Some s"
    and "map_of (label_to_name_of ordered) l' = Some s"
  shows "l = l'"
proof -
  from l2n_enum[OF assms(2)[unfolded label_to_name_of_def]]
  obtain i where i: "i < length ordered" "ordered ! i = l" "s = ''Participant '' @ show_nat (0 + i + 1)" by auto
  from l2n_enum[OF assms(3)[unfolded label_to_name_of_def]]
  obtain j where j: "j < length ordered" "ordered ! j = l'" "s = ''Participant '' @ show_nat (0 + j + 1)" by auto
  from i(3) j(3) have "show_nat (i + 1) = show_nat (j + 1)" by simp
  then have "i = j" by (auto dest: show_nat_inj)
  with i j show ?thesis by simp
qed

subsection \<open>The merge loop\<close>

lemma seg_step_cases:
  obtains (first) "merged = []" "seg_step merged r spk = [\<lparr>seg_start = r_start r, seg_end = r_end r, speaker = spk\<rparr>]"
  | (extend) ms prev where "merged = ms @ [prev]" "speaker prev = spk" "r_start r - seg_end prev \<le> max_merge_gap"
      "seg_step merged r spk = ms @ [prev\<lparr>seg_end := max (seg_end prev) (r_end r)\<rparr>]"
  | (append) ms prev where "merged = ms @ [prev]" "\<not> (speaker prev = spk \<and> r_start r - seg_end prev \<le> max_merge_gap)"
      "seg_step merged r spk = merged @ [\<lparr>seg_start = r_start r, seg_end = r_end r, speaker = spk\<rparr>]"
proof (cases "merged = []")
  case True then show ?thesis using first by (simp add: seg_step_def)
next
  case False
  then obtain ms prev where m: "merged = ms @ [prev]" by (metis rev_exhaust)
  show ?thesis
  proof (cases "speaker prev = spk \<and> r_start r - seg_end prev \<le> max_merge_gap")
    case True then show ?thesis using extend[of ms prev] m by (simp add: seg_step_def)
  next
    case False then show ?thesis using append[of ms prev] m by (simp add: seg_step_def)
  qed
qed


lemma seg_step_speakers:
  "speaker ` set (seg_step merged r spk) = insert spk (speaker ` set merged)"
  by (cases merged r spk rule: seg_step_cases) auto

lemma seg_step_geometry:
  assumes "seg_geometry merged" "\<forall>s\<in>set merged. seg_end s < r_start r" "r_start r < r_end r"
  shows "seg_geometry (seg_step merged r spk) \<and> (\<forall>s\<in>set (seg_step merged r spk). seg_end s \<le> r_end r)"
proof (cases merged r spk rule: seg_step_cases)
  case first with assms show ?thesis by (simp add: seg_geometry_def)
next
  case (extend ms prev)
  with assms show ?thesis
    by (auto simp: seg_geometry_def sorted_wrt_append)
next
  case (append ms prev)
  with assms show ?thesis by (auto simp: seg_geometry_def sorted_wrt_append)
qed

lemma seg_step_times:
  assumes "\<forall>s\<in>set merged. seg_start s \<in> S \<and> seg_end s \<in> E" "r_start r \<in> S" "r_end r \<in> E"
  shows "\<forall>s\<in>set (seg_step merged r spk). seg_start s \<in> S \<and> seg_end s \<in> E"
proof (cases merged r spk rule: seg_step_cases)
  case first with assms show ?thesis by simp
next
  case (extend ms prev)
  with assms show ?thesis by (auto simp: max_def)
next
  case (append ms prev)
  with assms show ?thesis by auto
qed


lemma merge_segments_total:
  "\<forall>r\<in>set rs. label r \<in> fst ` set l2n \<Longrightarrow> \<exists>out. merge_segments l2n rs merged = Inr out"
proof (induction rs arbitrary: merged)
  case Nil then show ?case by simp
next
  case (Cons r rs)
  from Cons.prems have "label r \<in> dom (map_of l2n)" by (simp add: dom_map_of_conv_image_fst)
  then obtain spk where s: "map_of l2n (label r) = Some spk" by auto
  from Cons.prems have "\<forall>r\<in>set rs. label r \<in> fst ` set l2n" by simp
  from Cons.IH[OF this, of "seg_step merged r spk"] s show ?case by simp
qed

lemma merge_segments_speakers:
  "merge_segments l2n rs merged = Inr out \<Longrightarrow>
   speaker ` set out = speaker ` set merged \<union> (\<lambda>r. the (map_of l2n (label r))) ` set rs"
proof (induction rs arbitrary: merged)
  case Nil then show ?case by simp
next
  case (Cons r rs)
  from Cons.prems(1) obtain spk where s: "map_of l2n (label r) = Some spk"
    by (cases "map_of l2n (label r)") simp_all
  with Cons.prems have "merge_segments l2n rs (seg_step merged r spk) = Inr out" by simp
  from Cons.IH[OF this] show ?case using s by (simp add: seg_step_speakers)
qed

lemma merge_segments_geometry:
  "merge_segments l2n rs merged = Inr out \<Longrightarrow> seg_geometry merged \<Longrightarrow> region_chain rs \<Longrightarrow>
   \<forall>s\<in>set merged. \<forall>r\<in>set rs. seg_end s < r_start r \<Longrightarrow> seg_geometry out"
proof (induction rs arbitrary: merged)
  case Nil then show ?case by simp
next
  case (Cons r rs)
  from Cons.prems(1) obtain spk where s: "map_of l2n (label r) = Some spk"
    by (cases "map_of l2n (label r)") simp_all
  with Cons.prems have m: "merge_segments l2n rs (seg_step merged r spk) = Inr out" by simp
  from Cons.prems(3) have rc: "r_start r < r_end r" "region_chain rs" "\<forall>r'\<in>set rs. r_end r < r_start r'"
    by (auto simp: region_chain_def)
  from seg_step_geometry[OF Cons.prems(2) _ rc(1), of spk] Cons.prems(4)
  have g: "seg_geometry (seg_step merged r spk)" and b: "\<forall>s\<in>set (seg_step merged r spk). seg_end s \<le> r_end r"
    by auto
  from b rc(3) have "\<forall>s\<in>set (seg_step merged r spk). \<forall>r'\<in>set rs. seg_end s < r_start r'" by fastforce
  from Cons.IH[OF m g rc(2) this] show ?case .
qed

lemma merge_segments_times:
  "merge_segments l2n rs merged = Inr out \<Longrightarrow>
   \<forall>s\<in>set merged. seg_start s \<in> S \<and> seg_end s \<in> E \<Longrightarrow>
   \<forall>r\<in>set rs. r_start r \<in> S \<and> r_end r \<in> E \<Longrightarrow>
   \<forall>s\<in>set out. seg_start s \<in> S \<and> seg_end s \<in> E"
proof (induction rs arbitrary: merged)
  case Nil then show ?case by simp
next
  case (Cons r rs)
  from Cons.prems(1) obtain spk where s: "map_of l2n (label r) = Some spk"
    by (cases "map_of l2n (label r)") simp_all
  with Cons.prems have m: "merge_segments l2n rs (seg_step merged r spk) = Inr out" by simp
  have "\<forall>s\<in>set (seg_step merged r spk). seg_start s \<in> S \<and> seg_end s \<in> E"
    using seg_step_times[OF Cons.prems(2), of r spk] Cons.prems(3) by simp
  from Cons.IH[OF m this] Cons.prems(3) show ?case by simp
qed

text \<open>The same facts for \<open>assemble\<close>.\<close>

lemma assemble_unfold:
  assumes "assemble rs = Inr res"
  shows "merge_segments (label_to_name_of (ordered_labels (label_first_seen_of rs))) rs []
           = Inr (segments res)"
    and "num_speakers res = length (ordered_labels (label_first_seen_of rs))"
  using assms
  by (cases "merge_segments (label_to_name_of (ordered_labels (label_first_seen_of rs))) rs []";
      simp add: assemble_def Let_def; fastforce)+

lemma assemble_total: "\<exists>res. assemble rs = Inr res"
proof -
  let ?ord = "ordered_labels (label_first_seen_of rs)"
  have "\<forall>r\<in>set rs. label r \<in> fst ` set (label_to_name_of ?ord)"
    using l2n_keys[of ?ord] ordered_labels_props(2)[of rs] by (metis imageI set_map)
  from merge_segments_total[OF this, of "[]"] show ?thesis
    by (auto simp: assemble_def Let_def)
qed

lemma assemble_num_speakers:
  assumes "assemble rs = Inr res"
  shows "num_speakers res = length (remdups (map speaker (segments res)))"
proof -
  let ?ord = "ordered_labels (label_first_seen_of rs)"
  let ?l2n = "label_to_name_of ?ord"
  let ?nm = "\<lambda>l. the (map_of ?l2n l)"
  define out where "out = segments res"
  from assemble_unfold[OF assms] have out: "merge_segments ?l2n rs [] = Inr out"
    and res: "num_speakers res = length ?ord" by (simp_all add: out_def)
  from merge_segments_speakers[OF out]
  have sp: "speaker ` set out = ?nm ` (label ` set rs)" by (simp add: image_image)
  have inj: "inj_on ?nm (set ?ord)"
  proof (rule inj_onI)
    fix l l' assume l: "l \<in> set ?ord" "l' \<in> set ?ord" and e: "?nm l = ?nm l'"
    from l2n_dom[OF l(1)] l2n_dom[OF l(2)] e obtain s where
      "map_of ?l2n l = Some s" "map_of ?l2n l' = Some s" by auto
    from l2n_inj[OF ordered_labels_props(1) this] show "l = l'" .
  qed
  have "length (remdups (map speaker out)) = card (speaker ` set out)"
    by (simp add: length_remdups_card_conv)
  also have "\<dots> = card (?nm ` set ?ord)" using sp ordered_labels_props(2)[of rs] by simp
  also have "\<dots> = card (set ?ord)" using inj by (rule card_image)
  also have "\<dots> = length ?ord" using ordered_labels_props(1)[of rs] by (rule distinct_card)
  finally show ?thesis using res by (simp add: out_def)
qed


lemma assemble_geometry:
  assumes "assemble rs = Inr res" "region_chain rs"
  shows "seg_geometry (segments res)"
  by (rule merge_segments_geometry[OF assemble_unfold(1)[OF assms(1)] _ assms(2)])
     (simp_all add: seg_geometry_def)

lemma assemble_times:
  "assemble rs = Inr res \<Longrightarrow>
   \<forall>s\<in>set (segments res). seg_start s \<in> r_start ` set rs \<and> seg_end s \<in> r_end ` set rs"
proof -
  assume "assemble rs = Inr res"
  from merge_segments_times[OF assemble_unfold(1)[OF this], of "r_start ` set rs" "r_end ` set rs"]
  show ?thesis by simp
qed

subsection \<open>Filterbank rows\<close>

lemma np_index_in_range: "0 \<le> k \<Longrightarrow> k < int n \<Longrightarrow> np_index n k = Inr (nat k)"
  by (simp add: np_index_def)

lemma fb_write_ok:
  "\<forall>k\<in>set ks. 0 \<le> k \<and> k < int (length row) \<and> (\<exists>v. f k = Inr v \<and> 0 \<le> v) \<Longrightarrow>
   \<forall>v\<in>set row. 0 \<le> v \<Longrightarrow>
   \<exists>row'. fb_write f ks row = Inr row' \<and> length row' = length row \<and> (\<forall>v\<in>set row'. 0 \<le> v)
      \<and> (\<forall>j<length row. int j \<notin> set ks \<longrightarrow> row' ! j = row ! j)"
proof (induction ks arbitrary: row)
  case Nil then show ?case by simp
next
  case (Cons k ks)
  from Cons.prems(1) obtain v where k: "0 \<le> k" "k < int (length row)" "f k = Inr v" "0 \<le> v" by auto
  let ?r = "row[nat k := v]"
  have p1: "\<forall>k\<in>set ks. 0 \<le> k \<and> k < int (length ?r) \<and> (\<exists>v. f k = Inr v \<and> 0 \<le> v)"
    using Cons.prems(1) by simp
  have p2: "\<forall>v\<in>set ?r. 0 \<le> v" using Cons.prems(2) k(4)
    by (metis insert_iff set_update_subset_insert subsetD)
  from Cons.IH[OF p1 p2] obtain row' where r: "fb_write f ks ?r = Inr row'" "length row' = length row"
    "\<forall>v\<in>set row'. 0 \<le> v" "\<forall>j<length row. int j \<notin> set ks \<longrightarrow> row' ! j = ?r ! j" by auto
  have "fb_write f (k # ks) row = Inr row'" using k r(1) by (simp add: np_index_in_range)
  moreover have "\<forall>j<length row. int j \<notin> set (k # ks) \<longrightarrow> row' ! j = row ! j"
    using r(4) k(1) by auto
  ultimately show ?case using r by blast
qed

lemma fb_write_head:
  assumes "fb_write f (k # ks) row = Inr row'" "f k = Inr v" "0 \<le> k" "k < int (length row)"
    "k \<notin> set ks"
    "\<forall>k\<in>set ks. 0 \<le> k \<and> k < int (length row) \<and> (\<exists>v. f k = Inr v \<and> 0 \<le> v)"
    "\<forall>v\<in>set row. 0 \<le> v" "0 \<le> v"
  shows "row' ! nat k = v"
proof -
  let ?r = "row[nat k := v]"
  have e: "fb_write f ks ?r = Inr row'" using assms(1-4) by (simp add: np_index_in_range)
  have p1: "\<forall>k\<in>set ks. 0 \<le> k \<and> k < int (length ?r) \<and> (\<exists>v. f k = Inr v \<and> 0 \<le> v)"
    using assms(6) by simp
  have p2: "\<forall>v\<in>set ?r. 0 \<le> v" using assms(7,8)
    by (metis insert_iff set_update_subset_insert subsetD)
  from fb_write_ok[OF p1 p2] e have "\<forall>j<length ?r. int j \<notin> set ks \<longrightarrow> row' ! j = ?r ! j" by auto
  moreover have "nat k < length ?r" "int (nat k) \<notin> set ks" using assms(3,4,5) by auto
  ultimately have "row' ! nat k = ?r ! nat k" by blast
  then show ?thesis using assms(3,4) by simp
qed

lemma sum_list_pos_real:
  fixes xs :: "real list"
  assumes "\<forall>v\<in>set xs. 0 \<le> v" "x \<in> set xs" "0 < x"
  shows "0 < sum_list xs"
  using assms
proof (induction xs)
  case Nil then show ?case by simp
next
  case (Cons a xs)
  have nn: "0 \<le> sum_list xs" using Cons.prems(1) by (intro sum_list_nonneg) simp
  show ?case
  proof (cases "x = a")
    case True with nn Cons.prems show ?thesis by simp
  next
    case False
    with Cons have "0 < sum_list xs" by simp
    moreover have "0 \<le> a" using Cons.prems(1) by simp
    ultimately show ?thesis by simp
  qed
qed

text \<open>General: a row is built without error whenever the three edges are in range.\<close>

lemma mel_filter_row_ok:
  assumes "0 \<le> bins ! (m - 1)" "bins ! (m - 1) \<le> int (n_fft div 2)"
    "bins ! m \<le> int (n_fft div 2)"
  shows "\<exists>row. mel_filter_row n_fft bins m = Inr row \<and> length row = n_fft div 2 + 1
           \<and> (\<forall>v\<in>set row. 0 \<le> v)"
proof -
  define left where "left = bins ! (m - 1)"
  define center where "center = (if bins ! m \<le> left then left + 1 else bins ! m)"
  define right1 where "right1 = (if bins ! (m + 1) \<le> center then center + 1 else bins ! (m + 1))"
  define right where "right = min right1 (int (n_fft div 2))"
  define row0 :: "real list" where "row0 = replicate (n_fft div 2 + 1) 0"
  have lc: "left < center" "0 \<le> left" "center \<le> int (n_fft div 2) + 1"
    using assms by (auto simp: left_def center_def)
  have a1: "\<forall>k\<in>set [left..center - 1]. 0 \<le> k \<and> k < int (length row0)
             \<and> (\<exists>v. py_div (of_int (k - left)) (of_int (center - left)) = Inr v \<and> 0 \<le> v)"
    using lc by (auto simp: row0_def py_div_def)
  have a2: "\<forall>v\<in>set row0. 0 \<le> v" by (simp add: row0_def)
  from fb_write_ok[OF a1 a2] obtain row1 where
    r1: "fb_write (\<lambda>k. py_div (of_int (k - left)) (of_int (center - left))) [left..center - 1] row0 = Inr row1"
      "length row1 = length row0" "\<forall>v\<in>set row1. 0 \<le> v" by auto
  have b1: "\<forall>k\<in>set [center..right - 1]. 0 \<le> k \<and> k < int (length row1)
             \<and> (\<exists>v. py_div (of_int (right - k)) (of_int (right - center)) = Inr v \<and> 0 \<le> v)"
    using lc r1(2) by (auto simp: row0_def py_div_def right_def)
  from fb_write_ok[OF b1 r1(3)] obtain row2 where
    r2: "fb_write (\<lambda>k. py_div (of_int (right - k)) (of_int (right - center))) [center..right - 1] row1 = Inr row2"
      "length row2 = length row1" "\<forall>v\<in>set row2. 0 \<le> v" by auto
  have "mel_filter_row n_fft bins m =
      (case fb_write (\<lambda>k. py_div (of_int (k - left)) (of_int (center - left))) [left..center - 1] row0 of
         Inl err \<Rightarrow> Inl err
       | Inr row \<Rightarrow> fb_write (\<lambda>k. py_div (of_int (right - k)) (of_int (right - center)))
                      [center..right - 1] row)"
    by (simp only: mel_filter_row_def Let_def left_def center_def right1_def right_def row0_def)
  then have "mel_filter_row n_fft bins m = Inr row2"
    by (simp only: r1(1) r2(1) sum.case)
  with r2 r1(2) show ?thesis by (simp add: row0_def)
qed

text \<open>When the centre lies below the last bin, the row has the entry 1 at the centre.\<close>

lemma mel_filter_row_peak:
  assumes "0 \<le> bins ! (m - 1)" "bins ! (m - 1) < int (n_fft div 2) - 1"
    "bins ! m < int (n_fft div 2)"
    and "mel_filter_row n_fft bins m = Inr row"
  shows "0 < sum_list row"
proof -
  define left where "left = bins ! (m - 1)"
  define center where "center = (if bins ! m \<le> left then left + 1 else bins ! m)"
  define right1 where "right1 = (if bins ! (m + 1) \<le> center then center + 1 else bins ! (m + 1))"
  define right where "right = min right1 (int (n_fft div 2))"
  define row0 :: "real list" where "row0 = replicate (n_fft div 2 + 1) 0"
  have lc: "left < center" "0 \<le> left" "center < int (n_fft div 2)" "center < right"
    using assms(1-3) by (auto simp: left_def center_def right_def right1_def)
  have a1: "\<forall>k\<in>set [left..center - 1]. 0 \<le> k \<and> k < int (length row0)
             \<and> (\<exists>v. py_div (of_int (k - left)) (of_int (center - left)) = Inr v \<and> 0 \<le> v)"
    using lc by (auto simp: row0_def py_div_def)
  have a2: "\<forall>v\<in>set row0. 0 \<le> v" by (simp add: row0_def)
  from fb_write_ok[OF a1 a2] obtain row1 where
    r1: "fb_write (\<lambda>k. py_div (of_int (k - left)) (of_int (center - left))) [left..center - 1] row0 = Inr row1"
      "length row1 = length row0" "\<forall>v\<in>set row1. 0 \<le> v" by auto
  let ?g = "\<lambda>k. py_div (of_int (right - k)) (of_int (right - center))"
  have b1: "\<forall>k\<in>set [center..right - 1]. 0 \<le> k \<and> k < int (length row1)
             \<and> (\<exists>v. ?g k = Inr v \<and> 0 \<le> v)"
    using lc r1(2) by (auto simp: row0_def py_div_def right_def)
  from fb_write_ok[OF b1 r1(3)] obtain row2 where
    r2: "fb_write ?g [center..right - 1] row1 = Inr row2"
      "length row2 = length row1" "\<forall>v\<in>set row2. 0 \<le> v" by auto
  have "mel_filter_row n_fft bins m =
      (case fb_write (\<lambda>k. py_div (of_int (k - left)) (of_int (center - left))) [left..center - 1] row0 of
         Inl err \<Rightarrow> Inl err
       | Inr row \<Rightarrow> fb_write (\<lambda>k. py_div (of_int (right - k)) (of_int (right - center)))
                      [center..right - 1] row)"
    by (simp only: mel_filter_row_def Let_def left_def center_def right1_def right_def row0_def)
  then have "mel_filter_row n_fft bins m = Inr row2"
    by (simp only: r1(1) r2(1) sum.case)
  with assms(4) have row: "row = row2" by simp
  have up: "[center..right - 1] = center # [center + 1..right - 1]"
    using lc(4) by (simp add: upto_rec1)
  have gc: "?g center = Inr 1" using lc(4) by (simp add: py_div_def)
  have b1': "\<forall>k\<in>set [center + 1..right - 1]. 0 \<le> k \<and> k < int (length row1)
             \<and> (\<exists>v. ?g k = Inr v \<and> 0 \<le> v)" using b1 unfolding up by simp
  have "row2 ! nat center = 1"
    by (rule fb_write_head[OF r2(1)[unfolded up] gc _ _ _ b1' r1(3)])
       (use lc r1(2) in \<open>auto simp: row0_def\<close>)
  moreover have "nat center < length row2" using lc r1(2) r2(2) by (simp add: row0_def)
  ultimately have "1 \<in> set row2" by (metis nth_mem)
  from sum_list_pos_real[OF r2(3) this] row show ?thesis by simp
qed

subsection \<open>The filterbank of the pipeline\<close>

lemma mel_to_hz_mono: "a \<le> b \<Longrightarrow> mel_to_hz a \<le> mel_to_hz b"
  by (simp add: mel_to_hz_def powr_mono)

lemma mel_to_hz_hz_to_mel: "- 700 < hz \<Longrightarrow> mel_to_hz (hz_to_mel hz) = hz"
  by (simp add: mel_to_hz_def hz_to_mel_def)

lemma hz_to_mel_mono: "- 700 < a \<Longrightarrow> a \<le> b \<Longrightarrow> hz_to_mel a \<le> hz_to_mel b"
  by (simp add: hz_to_mel_def)

lemma linspace_le: "a \<le> b \<Longrightarrow> x \<in> set (linspace a b n) \<Longrightarrow> x \<le> b"
proof -
  assume ab: "a \<le> b" and x: "x \<in> set (linspace a b n)"
  have "\<And>i. i < n - 1 \<Longrightarrow> a + real i * ((b - a) / real (n - 1)) \<le> b"
  proof -
    fix i assume i: "i < n - 1"
    then have "real i / real (n - 1) \<le> 1" by simp
    then have "(real i / real (n - 1)) * (b - a) \<le> 1 * (b - a)"
      using ab by (intro mult_right_mono) auto
    then show "a + real i * ((b - a) / real (n - 1)) \<le> b" by (simp add: field_simps)
  qed
  with ab x show ?thesis by (auto simp: linspace_def split: if_splits)
qed

lemma length_linspace: "length (linspace a b n) = n"
  by (simp add: linspace_def)

lemma length_mel_bins: "length (mel_bins sr n_fft n_mels f_min f_max) = n_mels + 2"
  by (simp add: mel_bins_def Let_def length_linspace)

lemma mel_bins_range:
  "b \<in> set (mel_bins sr n_fft n_mels f_min f_max) \<Longrightarrow> 0 \<le> b \<and> b \<le> int (n_fft div 2)"
  by (auto simp: mel_bins_def Let_def)

lemma pipeline_bins_le:
  assumes "b \<in> set (mel_bins 16000 512 24 80 7600)"
  shows "0 \<le> b \<and> b \<le> 243"
proof -
  from assms obtain mel where mel: "mel \<in> set (linspace (hz_to_mel 80) (hz_to_mel 7600) 26)"
    and b: "b = min (max \<lfloor>513 * mel_to_hz mel / 16000\<rfloor> 0) 256"
    by (auto simp: mel_bins_def Let_def)
  have "hz_to_mel 80 \<le> hz_to_mel 7600" by (rule hz_to_mel_mono) simp_all
  from linspace_le[OF this mel] have "mel_to_hz mel \<le> mel_to_hz (hz_to_mel 7600)"
    by (rule mel_to_hz_mono)
  then have "mel_to_hz mel \<le> 7600" by (simp add: mel_to_hz_hz_to_mel)
  then have "513 * mel_to_hz mel / 16000 < 244" by simp
  then have "\<lfloor>513 * mel_to_hz mel / 16000\<rfloor> < 244" by (simp add: floor_less_iff)
  with b show ?thesis by simp
qed

lemma mapE_ok:
  "\<forall>x\<in>set xs. \<exists>y. f x = Inr y \<and> P y \<Longrightarrow>
   \<exists>ys. mapE f xs = Inr ys \<and> length ys = length xs \<and> list_all P ys"
proof (induction xs)
  case Nil then show ?case by simp
next
  case (Cons x xs)
  then obtain y ys where "f x = Inr y" "P y" "mapE f xs = Inr ys" "length ys = length xs" "list_all P ys"
    by auto
  then show ?case by simp
qed

lemma pipeline_mel_fb:
  "\<exists>fb. build_mel_filterbank 16000 512 24 80 7600 = Inr fb \<and> length fb = 24
        \<and> list_all (\<lambda>row. length row = 512 div 2 + 1 \<and> 0 < sum_list row) fb"
proof -
  let ?bins = "mel_bins 16000 512 24 80 7600"
  have "\<forall>m\<in>set [1..<24 + 1]. \<exists>row. mel_filter_row 512 ?bins m = Inr row
          \<and> (length row = 512 div 2 + 1 \<and> 0 < sum_list row)"
  proof
    fix m assume "m \<in> set [1..<24 + 1]"
    then have m: "1 \<le> m" "m < 25" by auto
    then have "?bins ! (m - 1) \<in> set ?bins" "?bins ! m \<in> set ?bins"
      by (auto simp: length_mel_bins intro!: nth_mem)
    then have r: "0 \<le> ?bins ! (m - 1)" "?bins ! (m - 1) \<le> 243" "?bins ! m \<le> 243"
      using pipeline_bins_le by blast+
    from mel_filter_row_ok[of ?bins m 512] r obtain row where
      row: "mel_filter_row 512 ?bins m = Inr row" "length row = 512 div 2 + 1" by auto
    from mel_filter_row_peak[of ?bins m 512 row] r row(1) have "0 < sum_list row" by simp
    with row show "\<exists>row. mel_filter_row 512 ?bins m = Inr row
          \<and> (length row = 512 div 2 + 1 \<and> 0 < sum_list row)" by blast
  qed
  from mapE_ok[OF this] show ?thesis by (simp add: build_mel_filterbank_def)
qed

lemma widened_example:
  "mel_filter_row 16 [3, 3, 3] 1 = Inr [0, 0, 0, 0, 1, 0, 0, 0, 0]"
  by (simp add: mel_filter_row_def Let_def py_div_def np_index_def upto.simps)
     (simp add: eval_nat_numeral)

subsection \<open>Embeddings\<close>

lemma abs_le_l2_norm: "x \<in> set v \<Longrightarrow> \<bar>x\<bar> \<le> l2_norm v"
proof -
  assume x: "x \<in> set v"
  have "x * x \<le> (\<Sum>a\<leftarrow>v. a * a)" using x
  proof (induction v)
    case Nil then show ?case by simp
  next
    case (Cons a v)
    have nn: "0 \<le> (\<Sum>a\<leftarrow>v. a * a)" by (intro sum_list_nonneg) auto
    show ?case
    proof (cases "x = a")
      case True with nn show ?thesis by simp
    next
      case False
      with Cons have "x * x \<le> (\<Sum>a\<leftarrow>v. a * a)" by simp
      moreover have "0 \<le> a * a" by simp
      ultimately show ?thesis by (simp add: add_increasing)
    qed
  qed
  then have "sqrt (x * x) \<le> sqrt (\<Sum>a\<leftarrow>v. a * a)" by (rule real_sqrt_le_mono)
  then show ?thesis by (simp add: l2_norm_def)
qed

lemma l2_norm_normalised:
  assumes "0 < l2_norm v"
  shows "l2_norm (map (\<lambda>a. a / l2_norm v) v) = 1"
proof -
  let ?n = "l2_norm v"
  have "(\<Sum>a\<leftarrow>map (\<lambda>a. a / ?n) v. a * a) = (\<Sum>a\<leftarrow>v. (a * a) * (1 / (?n * ?n)))"
    by (simp add: comp_def)
  also have "\<dots> = (\<Sum>a\<leftarrow>v. a * a) * (1 / (?n * ?n))" by (rule sum_list_mult_const)
  finally have "l2_norm (map (\<lambda>a. a / ?n) v) = sqrt ((\<Sum>a\<leftarrow>v. a * a) / (?n * ?n))"
    by (simp add: l2_norm_def)
  also have "\<dots> = ?n / ?n"
    using assms by (simp add: real_sqrt_divide l2_norm_def)
  finally show ?thesis using assms by simp
qed

lemma length_embedding_feature:
  "length (embedding_feature sr start_s end_s mel_fb dct frames) = 2 * length dct + 4"
  by (simp add: embedding_feature_def Let_def)

lemma duration_in_feature:
  "end_s - start_s \<in> set (embedding_feature sr start_s end_s mel_fb dct frames)"
  by (simp add: embedding_feature_def Let_def)

lemma build_dct_matrix_shape:
  "0 < n_mfcc \<Longrightarrow> \<exists>dct. build_dct_matrix n_mels n_mfcc = Inr dct \<and> length dct = n_mfcc
      \<and> list_all (\<lambda>r. length r = n_mels) dct"
  by (simp add: build_dct_matrix_def list_all_iff)

lemma length_py_slice:
  "0 \<le> s \<Longrightarrow> 0 \<le> e \<Longrightarrow> int (length (py_slice s e xs)) \<le> max 0 (e - s)"
  by (auto simp: py_slice_def slice_def Let_def min_def max_def)

lemma frame_audio_count:
  "0 < hop_size \<Longrightarrow> frame_size \<le> length audio \<Longrightarrow> audio \<noteq> [] \<Longrightarrow>
   \<exists>frames. frame_audio audio frame_size hop_size = Inr frames
      \<and> length frames = 1 + (length audio - frame_size) div hop_size"
  by (simp add: frame_audio_def Let_def)

lemma extract_embedding_shape:
  assumes fb: "list_all (\<lambda>r. length r = 512 div 2 + 1) mel_fb"
    and dct: "list_all (\<lambda>r. length r = length mel_fb) dct" "length dct = 13"
    and iv: "0 \<le> start_s" "start_s < end_s"
  shows "\<exists>v. extract_embedding audio 16000 start_s end_s mel_fb dct = Inr v \<and> length v = 30 \<and>
           (if length (py_slice (max 0 (py_int (start_s * 16000)))
                        (min (int (length audio)) (py_int (end_s * 16000))) audio) < 6400
            then v = replicate 30 0 else l2_norm v = 1)"
proof -
  define s where "s = max 0 (py_int (start_s * 16000))"
  define e where "e = min (int (length audio)) (py_int (end_s * 16000))"
  define chunk where "chunk = py_slice s e audio"
  have c1: "py_int (0.4 * real (16000::nat)) = 6400" "nat (py_int (0.025 * real (16000::nat))) = 400"
    "nat (py_int (0.01 * real (16000::nat))) = 160"
    by (simp_all add: py_int_def)
  show ?thesis
  proof (cases "length chunk < 6400")
    case True
    then show ?thesis
      unfolding extract_embedding_def Let_def c1
      by (simp add: chunk_def s_def e_def)
  next
    case False
    then have big: "6400 \<le> length chunk" by simp
    from big have "chunk \<noteq> []" by auto
    with frame_audio_count[of 160 400 chunk] big obtain frames0 where
      fr: "frame_audio chunk 400 160 = Inr frames0" "length frames0 = 1 + (length chunk - 400) div 160"
      by auto
    have "(6400 - 400) div 160 \<le> (length chunk - 400) div (160::nat)"
      using big by (intro div_le_mono) simp
    with fr(2) have n2: "\<not> length frames0 < 2" by simp
    define frames where "frames = map (\<lambda>f. map2 (*) f (hanning 400)) frames0"
    define feature where "feature = embedding_feature 16000 start_s end_s mel_fb dct frames"
    have s0: "0 \<le> s" "start_s * 16000 - 1 < real_of_int s"
      using iv(1) by (auto simp: s_def py_int_def max_def)
    have e0: "0 \<le> e" "real_of_int e \<le> end_s * 16000"
      using iv by (auto simp: e_def py_int_def min_def) linarith+
    from length_py_slice[OF s0(1) e0(1), of audio] big have "6400 \<le> e - s"
      by (simp add: chunk_def)
    then have "6400 \<le> real_of_int e - real_of_int s" by linarith
    with s0(2) e0(2) have dur: "6399 / 16000 < end_s - start_s" by simp
    have "\<bar>end_s - start_s\<bar> \<le> l2_norm feature"
      unfolding feature_def by (rule abs_le_l2_norm[OF duration_in_feature])
    with dur have norm: "1 / 10 ^ 8 < l2_norm feature" by simp
    then have pos: "0 < l2_norm feature" by (simp add: order_less_trans[rotated])
    have len: "length feature = 30" by (simp add: feature_def length_embedding_feature dct(2))
    have "extract_embedding audio 16000 start_s end_s mel_fb dct =
        Inr (map (\<lambda>v. v / l2_norm feature) feature)"
      unfolding extract_embedding_def Let_def c1
      using False fr(1) n2 fb dct(1) norm
      by (simp add: chunk_def s_def e_def feature_def frames_def)
    with False len l2_norm_normalised[OF pos] show ?thesis
      by (simp add: chunk_def s_def e_def)
  qed
qed

subsection \<open>No stage of the pipeline fails\<close>

lemma frame_audio_total: "0 < hop_size \<Longrightarrow> \<exists>frames. frame_audio audio frame_size hop_size = Inr frames"
  by (simp add: frame_audio_def Let_def)

lemma detect_total: "\<exists>speech. detect_speech_regions audio 16000 = Inr speech"
proof -
  obtain frames where "frame_audio audio (nat \<lfloor>0.03 * real (16000::nat)\<rfloor>) (nat \<lfloor>0.01 * real (16000::nat)\<rfloor>) = Inr frames"
    using frame_audio_total[of "nat \<lfloor>0.01 * real (16000::nat)\<rfloor>"] by auto
  then show ?thesis by (simp add: detect_speech_regions_def Let_def)
qed

lemma detect_empty: "detect_speech_regions [] sr = Inr []"
  by (simp add: detect_speech_regions_def Let_def frame_audio_def)

lemma extract_embedding_total:
  assumes fb: "list_all (\<lambda>r. length r = 512 div 2 + 1) mel_fb"
    and dct: "list_all (\<lambda>r. length r = length mel_fb) dct"
  shows "\<exists>v. extract_embedding audio 16000 start_s end_s mel_fb dct = Inr v"
proof -
  have c1: "nat (py_int (0.025 * real (16000::nat))) = 400"
    "nat (py_int (0.01 * real (16000::nat))) = 160"
    by (simp_all add: py_int_def)
  obtain frames0 where fr: "frame_audio (py_slice (max 0 (py_int (start_s * real (16000::nat))))
      (min (int (length audio)) (py_int (end_s * real (16000::nat)))) audio) 400 160 = Inr frames0"
    using frame_audio_total[of 160] by auto
  show ?thesis
    unfolding extract_embedding_def Let_def c1 fr using fb dct by simp
qed

lemma embed_regions_ok:
  assumes fb: "list_all (\<lambda>r. length r = 512 div 2 + 1) mel_fb"
    and dct: "list_all (\<lambda>r. length r = length mel_fb) dct"
  shows "\<exists>regions. embed_regions audio 16000 mel_fb dct speech = Inr regions
           \<and> map r_start regions = map fst speech \<and> map r_end regions = map snd speech"
proof (induction speech)
  case Nil then show ?case by (simp add: embed_regions_def)
next
  case (Cons p speech)
  obtain s e where p: "p = (s, e)" by (cases p)
  from extract_embedding_total[OF fb dct] obtain v where
    v: "extract_embedding audio 16000 s e mel_fb dct = Inr v" by blast
  from Cons.IH obtain regions where
    r: "embed_regions audio 16000 mel_fb dct speech = Inr regions"
      "map r_start regions = map fst speech" "map r_end regions = map snd speech" by blast
  have "embed_regions audio 16000 mel_fb dct (p # speech)
        = Inr (\<lparr>r_start = s, r_end = e, embedding = v, label = 0\<rparr> # regions)"
    using r(1) v by (simp add: embed_regions_def p)
  with r(2,3) show ?case by (simp add: p)
qed

lemma draw_integers_ok:
  "rng_ok R \<Longrightarrow> 0 < n \<Longrightarrow> \<exists>idx g'. draw_integers R g n = Inr (idx, g') \<and> idx < n"
proof -
  assume "rng_ok R" "0 < n"
  then have "fst (rng_integers R g n) < n" by (simp add: rng_ok_def)
  with \<open>0 < n\<close> show ?thesis
    by (cases "rng_integers R g n") (simp add: draw_integers_def)
qed

lemma next_center_draw_ok:
  assumes "rng_ok R" "0 < n"
  shows "\<exists>idx g'. next_center_draw R g n cd = Inr (idx, g') \<and> idx < n"
proof -
  from draw_integers_ok[OF assms] obtain i1 g1 where
    d: "draw_integers R g n = Inr (i1, g1)" "i1 < n" by blast
  have c: "\<And>p. \<exists>idx g'. rng_choice R g n p = (idx, g') \<and> idx < n"
  proof -
    fix p
    from assms have "fst (rng_choice R g n p) < n" by (simp add: rng_ok_def)
    then show "\<exists>idx g'. rng_choice R g n p = (idx, g') \<and> idx < n"
      by (cases "rng_choice R g n p") simp
  qed
  show ?thesis
    unfolding next_center_draw_def Let_def using d c by auto
qed

lemma kmeans_pp_loop_total:
  "rng_ok R \<Longrightarrow> x \<noteq> [] \<Longrightarrow> \<exists>c. kmeans_pp_loop R x cs g centers cd = Inr c"
proof (induction cs arbitrary: g centers cd)
  case Nil then show ?case by simp
next
  case (Cons c cs)
  from Cons.prems have "0 < length x" by simp
  from next_center_draw_ok[OF Cons.prems(1) this] obtain idx g' where
    d: "next_center_draw R g (length x) cd = Inr (idx, g')" "idx < length x" by blast
  from Cons.IH[OF Cons.prems, of g' "centers[c := x ! idx]" "map2 min cd (sq_dists_to x (x ! idx))"]
  show ?case using d by simp
qed

lemma kmeans_pp_init_total:
  assumes "rng_ok R" "x \<noteq> []" "0 < k"
  shows "\<exists>c. kmeans_pp_init x k R g = Inr c"
proof -
  from assms have "0 < length x" by simp
  from draw_integers_ok[OF assms(1) this] obtain idx g' where
    d: "draw_integers R g (length x) = Inr (idx, g')" "idx < length x" by blast
  from kmeans_pp_loop_total[OF assms(1,2)] show ?thesis
    unfolding kmeans_pp_init_def Let_def using d assms(3) by simp
qed

lemma length_pairwise_distances: "length (pairwise_distances x) = length x"
  by (simp add: pairwise_distances_def Let_def)

lemma kmeans_iterate_length:
  "length labels = length x \<Longrightarrow> length (fst (kmeans_iterate it x k (labels, centers))) = length x"
proof (induction it arbitrary: labels centers)
  case 0 then show ?case by simp
next
  case (Suc it)
  show ?case
    using Suc.prems Suc.IH
    by (simp add: Let_def length_pairwise_distances)
qed

lemma run_kmeans_total:
  assumes "rng_ok R" "x \<noteq> []" "0 < k"
  shows "\<exists>labels centers inertia. run_kmeans R x k seed it = Inr (labels, centers, inertia)
           \<and> length labels = length x"
proof -
  from kmeans_pp_init_total[OF assms] obtain c0 where
    c0: "kmeans_pp_init x k R (default_rng R seed) = Inr c0" by blast
  obtain labels centers where
    it: "kmeans_iterate it x k (replicate (length x) 0, c0) = (labels, centers)"
    by (cases "kmeans_iterate it x k (replicate (length x) 0, c0)")
  from kmeans_iterate_length[of "replicate (length x) 0" x it k c0] it
  have "length labels = length x" by simp
  then show ?thesis by (simp add: run_kmeans_def c0 it Let_def)
qed

lemma best_over_seeds_total:
  assumes "rng_ok R" "x \<noteq> []" "0 < k"
  shows "\<forall>l. bl = Some l \<longrightarrow> length l = length x \<Longrightarrow>
    \<exists>r. best_over_seeds R x k sds (bl, bi) = Inr r \<and> (\<forall>l. r = Some l \<longrightarrow> length l = length x)"
proof (induction sds arbitrary: bl bi)
  case Nil then show ?case by simp
next
  case (Cons seed sds)
  from run_kmeans_total[OF assms, of seed 60] obtain labels centers inertia where
    r: "run_kmeans R x k seed 60 = Inr (labels, centers, inertia)" "length labels = length x"
    by blast
  show ?case
  proof (cases "case bi of None \<Rightarrow> True | Some b \<Rightarrow> inertia < b")
    case True
    from Cons.IH[of "Some labels" "Some inertia"] r(2) True r(1) show ?thesis by simp
  next
    case False
    from Cons.IH[OF Cons.prems, of bi] False r(1) show ?thesis by simp
  qed
qed

lemma choose_loop_total:
  assumes "rng_ok R" "x \<noteq> []"
  shows "\<forall>k\<in>set ks. 0 < k \<Longrightarrow> \<exists>r. choose_loop R x ks (bk, bs) = Inr r"
proof (induction ks arbitrary: bk bs)
  case Nil then show ?case by simp
next
  case (Cons k ks)
  from Cons.prems have k: "0 < nat k" by simp
  from best_over_seeds_total[OF assms k, of None seeds None] obtain r where
    r: "best_over_seeds R x (nat k) seeds (None, None) = Inr r" by auto
  from Cons.prems have ks: "\<forall>k\<in>set ks. 0 < k" by simp
  show ?case
  proof (cases r)
    case None
    with r Cons.IH[OF ks, of bk bs] show ?thesis by simp
  next
    case (Some l)
    show ?thesis
    proof (cases "silhouette_score x l - 0.02 * of_int (k - 1) > bs")
      case True
      with r Some Cons.IH[OF ks, of k "silhouette_score x l - 0.02 * of_int (k - 1)"]
      show ?thesis by (simp add: Let_def)
    next
      case False
      with r Some Cons.IH[OF ks, of bk bs] show ?thesis by (simp add: Let_def)
    qed
  qed
qed

lemma choose_speaker_count_total:
  assumes "rng_ok R" "x \<noteq> []"
  shows "\<exists>k. choose_speaker_count R x mn mx = Inr k"
proof -
  let ?ks = "[max 2 (min mn (min mx (int (length x))))..min mx (int (length x))]"
  have "\<forall>k\<in>set ?ks. 0 < k" by auto
  from choose_loop_total[OF assms this, of 1 "- 1"] obtain r where
    r: "choose_loop R x ?ks (1, - 1) = Inr r" by blast
  obtain bk bs where "r = (bk, bs)" by (cases r)
  with r show ?thesis by (simp add: choose_speaker_count_def Let_def)
qed

lemma final_labels_total:
  assumes "rng_ok R" "x \<noteq> []"
  shows "\<exists>labels. final_labels R x k = Inr labels \<and> length labels = length x"
proof (cases "k \<le> 1")
  case True then show ?thesis by (simp add: final_labels_def)
next
  case False
  then have k: "0 < nat k" by simp
  from best_over_seeds_total[OF assms k, of None seeds None] obtain r where
    r: "best_over_seeds R x (nat k) seeds (None, None) = Inr r"
       "\<forall>l. r = Some l \<longrightarrow> length l = length x" by auto
  show ?thesis using False r by (cases r) (simp_all add: final_labels_def)
qed

lemma cycle_rng_ok: "rng_ok cycle_rng"
  by (simp add: rng_ok_def cycle_rng_def)

lemma relabel_times:
  "length ls = length rs \<Longrightarrow>
   map r_start (map2 (\<lambda>r l. r\<lparr>label := l\<rparr>) rs ls) = map r_start rs \<and>
   map r_end (map2 (\<lambda>r l. r\<lparr>label := l\<rparr>) rs ls) = map r_end rs"
  by (induction ls rs rule: list_induct2) simp_all

lemma diarize_cases [consumes 1, case_names empty speech]:
  assumes "rng_ok R"
  obtains (empty) speech where "detect_speech_regions audio 16000 = Inr speech"
      "audio = [] \<or> speech = []" "diarize R audio mn mx = Inr empty_result"
  | (speech) speech regions where "detect_speech_regions audio 16000 = Inr speech"
      "speech \<noteq> []" "map r_start regions = map fst speech" "map r_end regions = map snd speech"
      "diarize R audio mn mx = assemble regions"
proof -
  obtain speech where sp: "detect_speech_regions audio 16000 = Inr speech"
    using detect_total by blast
  show ?thesis
  proof (cases "audio = [] \<or> speech = []")
    case True
    then have "diarize R audio mn mx = Inr empty_result"
      by (auto simp: diarize_def Let_def sp)
    with sp True show ?thesis by (rule empty)
  next
    case False
    then have ne: "audio \<noteq> []" "speech \<noteq> []" by simp_all
    obtain fb where fb: "build_mel_filterbank 16000 512 24 80 7600 = Inr fb" "length fb = 24"
      "list_all (\<lambda>row. length row = 512 div 2 + 1 \<and> 0 < sum_list row) fb"
      using pipeline_mel_fb by blast
    then have fbs: "list_all (\<lambda>r. length r = 512 div 2 + 1) fb" by (simp add: list_all_iff)
    obtain dct where dct: "build_dct_matrix 24 13 = Inr dct" "length dct = 13"
      "list_all (\<lambda>r. length r = 24) dct"
      using build_dct_matrix_shape[of 13 24] by auto
    then have dcs: "list_all (\<lambda>r. length r = length fb) dct" by (simp add: fb(2))
    from embed_regions_ok[OF fbs dcs, of audio speech] obtain regions0 where
      r0: "embed_regions audio 16000 fb dct speech = Inr regions0"
        "map r_start regions0 = map fst speech" "map r_end regions0 = map snd speech" by blast
    from r0(2) have len: "length regions0 = length speech" by (metis length_map)
    with ne have xne: "map embedding regions0 \<noteq> []" by auto
    from choose_speaker_count_total[OF assms xne, of mn mx] obtain k where
      k: "choose_speaker_count R (map embedding regions0) mn mx = Inr k" by blast
    from final_labels_total[OF assms xne, of k] obtain labels where
      l: "final_labels R (map embedding regions0) k = Inr labels"
         "length labels = length regions0" by auto
    let ?regions = "map2 (\<lambda>r l. r\<lparr>label := l\<rparr>) regions0 labels"
    have d: "diarize R audio mn mx = assemble ?regions"
      using ne xne by (simp add: diarize_def Let_def sp fb(1) dct(1) r0(1) k l)
    from relabel_times[OF l(2)] r0(2,3)
    have "map r_start ?regions = map fst speech" "map r_end ?regions = map snd speech"
      by simp_all
    with sp ne(2) show ?thesis using d by (rule speech)
  qed
qed

lemma region_chain_of_separated:
  assumes "well_separated speech" "map r_start rs = map fst speech" "map r_end rs = map snd speech"
  shows "region_chain rs"
proof -
  from assms(2) have len: "length rs = length speech" by (metis length_map)
  have st: "\<And>i. i < length rs \<Longrightarrow> r_start (rs ! i) = fst (speech ! i)"
    using assms(2) len by (metis nth_map)
  have en: "\<And>i. i < length rs \<Longrightarrow> r_end (rs ! i) = snd (speech ! i)"
    using assms(3) len by (metis nth_map)
  from assms(1) have a: "\<And>i. i < length speech \<Longrightarrow> fst (speech ! i) + 0.65 \<le> snd (speech ! i)"
    and b: "\<And>i j. i < j \<Longrightarrow> j < length speech \<Longrightarrow> snd (speech ! i) + 0.35 < fst (speech ! j)"
    by (auto simp: well_separated_def list_all_length sorted_wrt_iff_nth_less)
  have "list_all (\<lambda>r. r_start r < r_end r) rs"
    unfolding list_all_length
  proof (intro allI impI)
    fix i assume i: "i < length rs"
    with a[of i] len st[OF i] en[OF i] show "r_start (rs ! i) < r_end (rs ! i)" by simp
  qed
  moreover have "sorted_wrt (\<lambda>a b. r_end a < r_start b) rs"
    unfolding sorted_wrt_iff_nth_less
  proof (intro allI impI)
    fix i j assume ij: "i < j" "j < length rs"
    then have i: "i < length rs" by simp
    from b[OF ij(1)] ij(2) len st[OF ij(2)] en[OF i]
    show "r_end (rs ! i) < r_start (rs ! j)" by simp
  qed
  ultimately show ?thesis by (simp add: region_chain_def)
qed

lemma seg_geometry_sorted: "seg_geometry segs \<Longrightarrow> sorted (map seg_start segs)"
proof -
  assume g: "seg_geometry segs"
  then have a: "\<And>i. i < length segs \<Longrightarrow> seg_start (segs ! i) < seg_end (segs ! i)"
    and b: "\<And>i j. i < j \<Longrightarrow> j < length segs \<Longrightarrow> seg_end (segs ! i) < seg_start (segs ! j)"
    by (auto simp: seg_geometry_def list_all_length sorted_wrt_iff_nth_less)
  show ?thesis
    unfolding sorted_iff_nth_mono_less
  proof (intro allI impI)
    fix i j assume ij: "i < j" "j < length (map seg_start segs)"
    then have "i < length segs" "j < length segs" by simp_all
    with a[of i] b[of i j] ij(1) show "map seg_start segs ! i \<le> map seg_start segs ! j" by simp
  qed
qed

subsection \<open>The generator is consulted through the three seeds only\<close>










subsection \<open>Hole filling\<close>

lemma np_all_slice:
  assumes "b \<le> length m"
  shows "np_all (slice a b m) \<longleftrightarrow> (\<forall>j. a \<le> j \<and> j < b \<longrightarrow> m ! j)"
proof -
  have len: "length (slice a b m) = b - a" using assms by (simp add: slice_def)
  have nth: "\<And>k. k < b - a \<Longrightarrow> slice a b m ! k = m ! (a + k)"
    using assms by (simp add: slice_def)
  have "np_all (slice a b m) \<longleftrightarrow> (\<forall>k<b - a. m ! (a + k))"
    by (simp add: np_all_def list_all_length len nth)
  also have "\<dots> \<longleftrightarrow> (\<forall>j. a \<le> j \<and> j < b \<longrightarrow> m ! j)"
  proof
    assume h: "\<forall>k<b - a. m ! (a + k)"
    show "\<forall>j. a \<le> j \<and> j < b \<longrightarrow> m ! j"
    proof (intro allI impI)
      fix j assume j: "a \<le> j \<and> j < b"
      then have "j - a < b - a" by linarith
      with h have "m ! (a + (j - a))" by blast
      with j show "m ! j" by simp
    qed
  next
    assume h: "\<forall>j. a \<le> j \<and> j < b \<longrightarrow> m ! j"
    show "\<forall>k<b - a. m ! (a + k)"
    proof (intro allI impI)
      fix k assume "k < b - a"
      then have "a \<le> a + k \<and> a + k < b" by linarith
      with h show "m ! (a + k)" by blast
    qed
  qed
  finally show ?thesis .
qed

lemma fill_step_nth:
  assumes "length fixed = length m" "i < length m" "k < length m"
  shows "length (fill_step hole m fixed k) = length m"
    and "fill_step hole m fixed k ! i \<longleftrightarrow> fixed ! i \<or> (i = k \<and> fills hole m k)"
  using assms by (auto simp: fill_step_def fills_def nth_list_update)

lemma foldl_fill:
  assumes "length fixed = length m" "b \<le> length m"
  shows "length (foldl (fill_step hole m) fixed [a..<b]) = length m \<and>
         (\<forall>i<length m. foldl (fill_step hole m) fixed [a..<b] ! i
              \<longleftrightarrow> fixed ! i \<or> (a \<le> i \<and> i < b \<and> fills hole m i))"
  using assms(2)
proof (induction b)
  case 0 then show ?case using assms(1) by simp
next
  case (Suc b)
  then have b: "b \<le> length m" "b < length m" by simp_all
  note IH = Suc.IH[OF b(1)]
  show ?case
  proof (cases "a \<le> b")
    case False
    then have "[a..<Suc b] = []" "[a..<b] = []" by simp_all
    with IH False show ?thesis by auto
  next
    case True
    let ?f = "foldl (fill_step hole m) fixed [a..<b]"
    from True have e: "foldl (fill_step hole m) fixed [a..<Suc b] = fill_step hole m ?f b" by simp
    from IH have len: "length ?f = length m" by simp
    have "\<forall>i<length m. fill_step hole m ?f b ! i
              \<longleftrightarrow> fixed ! i \<or> (a \<le> i \<and> i < Suc b \<and> fills hole m i)"
    proof (intro allI impI)
      fix i assume i: "i < length m"
      from fill_step_nth(2)[OF len i b(2), of hole]
      have "fill_step hole m ?f b ! i \<longleftrightarrow> ?f ! i \<or> (i = b \<and> fills hole m b)" .
      also from IH i have "?f ! i \<longleftrightarrow> fixed ! i \<or> (a \<le> i \<and> i < b \<and> fills hole m i)" by blast
      finally show "fill_step hole m ?f b ! i
              \<longleftrightarrow> fixed ! i \<or> (a \<le> i \<and> i < Suc b \<and> fills hole m i)"
        using True by (auto simp: less_Suc_eq)
    qed
    with fill_step_nth(1)[OF len _ b(2), of b hole] b(2) e show ?thesis by simp
  qed
qed

lemma fills_iff:
  assumes "hole \<le> i" "i + hole < length m"
  shows "fills hole m i \<longleftrightarrow> \<not> m ! i \<and> (\<forall>j. i - hole \<le> j \<and> j < i \<longrightarrow> m ! j)
           \<and> (\<forall>j. i < j \<and> j \<le> i + hole \<longrightarrow> m ! j)"
proof -
  have "np_all (slice (i - hole) i m) \<longleftrightarrow> (\<forall>j. i - hole \<le> j \<and> j < i \<longrightarrow> m ! j)"
    using assms by (intro np_all_slice) simp
  moreover have "np_all (slice (i + 1) (i + 1 + hole) m)
      \<longleftrightarrow> (\<forall>j. i + 1 \<le> j \<and> j < i + 1 + hole \<longrightarrow> m ! j)"
    using assms by (intro np_all_slice) simp
  moreover have "(\<forall>j. i + 1 \<le> j \<and> j < i + 1 + hole \<longrightarrow> m ! j)
      \<longleftrightarrow> (\<forall>j. i < j \<and> j \<le> i + hole \<longrightarrow> m ! j)"
    by (auto simp: Suc_le_eq less_Suc_eq_le)
  ultimately show ?thesis by (simp add: fills_def)
qed

lemma pipeline_hole: "nat \<lfloor>0.12 / (real (160::nat) / real (16000::nat))\<rfloor> = 12"
  by simp

lemma raw_regions_example:
  "raw_regions 16000 160 480 (replicate 12 True @ [False, False] @ replicate 70 True)
     = [(0, 7 / 50), (7 / 50, 43 / 50)]"
  by (simp add: raw_regions_def region_of_def enumerate_append_eq enumerate_replicate_eq
        upt_rec)

lemma fill_holes_example:
  "fill_holes 12 (replicate 12 True @ [False, False] @ replicate 70 True)
     = replicate 12 True @ [False, False] @ replicate 70 True"
  by (simp add: fill_holes_def fill_step_def np_all_def slice_def upt_rec nth_append nth_Cons')

lemma regions_gap_example:
  "regions_of_mask 16000 160 480 (replicate 12 True @ [False, False] @ replicate 70 True)
     = [(7 / 50, 43 / 50)]"
  unfolding regions_of_mask_def Let_def pipeline_hole fill_holes_example raw_regions_example
  by (simp add: merge_regions_def merge_step_def)

lemma regions_full_example:
  "regions_of_mask 16000 160 480 (replicate 84 True) = [(0, 43 / 50)]"
  by (simp add: regions_of_mask_def fill_holes_def fill_step_def upt_rec
      raw_regions_def region_of_def enumerate_replicate_eq merge_regions_def merge_step_def)

subsection \<open>One cluster\<close>

lemma np_argmin_single: "np_argmin [a] = 0"
  by (simp add: np_argmin_def)

lemma pairwise_row_length: "row \<in> set (pairwise_distances y) \<Longrightarrow> length row = length y"
  by (auto simp: pairwise_distances_def Let_def)

lemma np_argmin_last_column:
  assumes "length v = Suc n"
  shows "np_argmin (drop n v) = 0"
proof -
  from assms have "length (drop n v) = 1" by simp
  then obtain a where "drop n v = [a]" by (cases "drop n v") simp_all
  then show ?thesis by (simp add: np_argmin_single)
qed

lemma one_center_labels:
  "map np_argmin (map (drop (length x)) (take (length x) (pairwise_distances (x @ [c]))))
     = replicate (length x) 0"
proof -
  let ?rows = "take (length x) (pairwise_distances (x @ [c]))"
  have len: "length ?rows = length x" by (simp add: length_pairwise_distances)
  have "\<forall>row\<in>set ?rows. np_argmin (drop (length x) row) = 0"
  proof
    fix row assume "row \<in> set ?rows"
    then have "row \<in> set (pairwise_distances (x @ [c]))" by (rule in_set_takeD)
    from pairwise_row_length[OF this] have "length row = Suc (length x)" by simp
    then show "np_argmin (drop (length x) row) = 0" by (rule np_argmin_last_column)
  qed
  then have "map (\<lambda>row. np_argmin (drop (length x) row)) ?rows = map (\<lambda>row. 0) ?rows"
    by (intro map_cong) simp_all
  also have "\<dots> = replicate (length ?rows) 0" by (simp add: map_replicate_const)
  finally show ?thesis by (simp add: length_pairwise_distances comp_def)
qed

lemma kmeans_iterate_one:
  "kmeans_iterate it x 1 (replicate (length x) 0, [c]) = (replicate (length x) 0, [c])"
proof (cases it)
  case 0 then show ?thesis by simp
next
  case (Suc n)
  show ?thesis
    unfolding Suc by (simp only: kmeans_iterate.simps Let_def one_center_labels refl if_True)
qed

lemma map2_replicate: "map2 f xs (replicate (length xs) a) = map (\<lambda>r. f r a) xs"
  by (induction xs) simp_all

lemma run_kmeans_one:
  assumes "rng_ok R" "x \<noteq> []"
  shows "\<exists>idx<length x. run_kmeans R x 1 seed it =
           Inr (replicate (length x) 0, [x ! idx],
                \<Sum>row\<leftarrow>x. (l2_norm (map2 (-) row (x ! idx)))\<^sup>2)"
proof -
  from assms have "0 < length x" by simp
  from draw_integers_ok[OF assms(1) this] obtain idx g' where
    d: "draw_integers R (default_rng R seed) (length x) = Inr (idx, g')" "idx < length x" by blast
  have init: "kmeans_pp_init x 1 R (default_rng R seed) = Inr [x ! idx]"
    using d by (simp add: kmeans_pp_init_def)
  have "run_kmeans R x 1 seed it =
           Inr (replicate (length x) 0, [x ! idx],
                \<Sum>row\<leftarrow>x. (l2_norm (map2 (-) row (x ! idx)))\<^sup>2)"
  proof -
    have "run_kmeans R x 1 seed it =
      (let final_dist = map2 (\<lambda>row l. l2_norm (map2 (-) row ([x ! idx] ! l))) x
                          (replicate (length x) 0);
           inertia = (\<Sum>d\<leftarrow>final_dist. d\<^sup>2)
       in Inr (replicate (length x) 0, [x ! idx], inertia))"
      by (simp only: run_kmeans_def init sum.case kmeans_iterate_one prod.case)
    also have "\<dots> = Inr (replicate (length x) 0, [x ! idx],
                \<Sum>row\<leftarrow>x. (l2_norm (map2 (-) row (x ! idx)))\<^sup>2)"
      by (simp only: Let_def map2_replicate) (simp add: comp_def)
    finally show ?thesis .
  qed
  with d(2) show ?thesis by blast
qed

lemma total_variance_example: "total_variance [[0], [2]] = 2"
  by (simp add: total_variance_def mean_rows_def sq_dists_to_def np_mean_def column_def)

subsection \<open>The silhouette\<close>

lemma upt_3: "[0..<3] = [0, 1, 2]"
  by (simp add: upt_rec)



lemma amended_silhouette_example: "amended_silhouette [[0], [1], [2]] [0, 0, 1] = 1 / 2"
  by (simp add: amended_silhouette_def amended_point_def intra_distance_def nearest_distance_def
        mean_distance_def cluster_members_def euclid_def np_mean_def Let_def upt_3)























subsection \<open>A silent buffer\<close>

text \<open>One frame of zeros lies below the threshold: the detector finds nothing.\<close>

lemma silent_frame: "frame_audio (replicate 480 0) 480 160 = Inr [replicate 480 0]"
  by (simp add: frame_audio_def slice_def)

lemma silent_rms: "frame_rms (replicate 480 0) = 1 / 10 ^ 5"
proof -
  have "sqrt (1 / 10 ^ 10) = 1 / 10 ^ 5"
    by (rule real_sqrt_unique) (simp_all add: power_divide)
  then show ?thesis
    by (simp add: frame_rms_def np_mean_def sum_list_replicate)
qed

lemma silent_mask: "speech_mask_of [replicate 480 0] = [False]"
  unfolding speech_mask_of_def Let_def list.map silent_rms
  by (simp add: percentile_def)

lemma detect_silence: "detect_speech_regions (replicate 480 0) 16000 = Inr []"
proof -
  have c: "nat \<lfloor>0.03 * real (16000::nat)\<rfloor> = 480" "nat \<lfloor>0.01 * real (16000::nat)\<rfloor> = 160"
    by simp_all
  show ?thesis
    unfolding detect_speech_regions_def Let_def c silent_frame
    by (simp add: silent_mask regions_of_mask_def fill_holes_def raw_regions_def
          merge_regions_def)
qed

section \<open>The claims\<close>


text \<open>
  Claim C1. For every sample buffer and every speaker configuration, \<open>diarize\<close>
  returns a result (with a generator that keeps its contract, nothing in the pipeline
  raises), and in it: \<open>num_speakers\<close> is the number of distinct speaker names of the
  segments; the segments are sorted by their start; each segment ends before the next
  one begins, hence no two overlap; and every segment has \<open>start < end\<close>.
\<close>

theorem diarize_wellformed:
  assumes "rng_ok R"
  shows "\<exists>res. diarize R audio mn mx = Inr res
           \<and> num_speakers res = card (speaker ` set (segments res))
           \<and> sorted (map seg_start (segments res))
           \<and> sorted_wrt (\<lambda>a b. seg_end a < seg_start b) (segments res)
           \<and> list_all (\<lambda>s. seg_start s < seg_end s) (segments res)"
  using assms
proof (cases rule: diarize_cases [where audio = audio and mn = mn and mx = mx])
  case (empty speech)
  then show ?thesis by (simp add: empty_result_def)
next
  case (speech speech regions)
  from assemble_total obtain res where res: "assemble regions = Inr res" by blast
  from detect_separated[OF speech(1)] have "well_separated speech" .
  from region_chain_of_separated[OF this speech(3,4)] have "region_chain regions" .
  from assemble_geometry[OF res this] have g: "seg_geometry (segments res)" .
  from assemble_num_speakers[OF res]
  have "num_speakers res = card (speaker ` set (segments res))"
    by (simp add: length_remdups_card_conv)
  with g seg_geometry_sorted[OF g] speech(5) res show ?thesis
    by (simp add: seg_geometry_def)
qed

theorem diarize_wellformed_witness:
  "\<forall>audio mn mx. \<exists>res. diarize cycle_rng audio mn mx = Inr res
           \<and> num_speakers res = card (speaker ` set (segments res))
           \<and> sorted (map seg_start (segments res))
           \<and> sorted_wrt (\<lambda>a b. seg_end a < seg_start b) (segments res)
           \<and> list_all (\<lambda>s. seg_start s < seg_end s) (segments res)"
  using diarize_wellformed [OF cycle_rng_ok] by blast



text \<open>
  Claim C3. For an empty sample buffer, and likewise when the detector finds no speech
  interval, \<open>diarize\<close> returns the empty result, no segments and 0 speakers, and not
  an error.
\<close>

theorem diarize_empty:
  assumes "audio = [] \<or> detect_speech_regions audio 16000 = Inr []"
  shows "diarize R audio mn mx = Inr empty_result"
  using assms by (auto simp: diarize_def Let_def)

theorem diarize_empty_witness:
  "(\<forall>mn mx. diarize cycle_rng [] mn mx = Inr \<lparr>segments = [], num_speakers = 0\<rparr>) \<and>
   (\<forall>mn mx. diarize cycle_rng (replicate 480 0) mn mx
       = Inr \<lparr>segments = [], num_speakers = 0\<rparr>)"
  using diarize_empty [of "[]" cycle_rng] diarize_empty [of "replicate 480 0" cycle_rng]
    detect_silence
  by (simp add: empty_result_def)

text \<open>
  Claim C4. With \<open>k = 1\<close> the first assignment is all zeros, as the initial one is, so
  the loop of \<open>run_kmeans\<close> stops before any centre is updated: the centre stays the
  data point the seeding drew (lemma \<open>run_kmeans_one\<close>). For the points 0 and 2 the
  assignment is all zeros and the inertia is 4 with every generator, where the total
  variance is 2.
\<close>

theorem run_kmeans_one_cluster_inertia:
  assumes "rng_ok R"
  shows "\<exists>centers. run_kmeans R [[0], [2]] 1 7 60 = Inr ([0, 0], centers, 4)
           \<and> total_variance [[0], [2]] = 2"
proof -
  have "[[0], [2::real]] \<noteq> []" by simp
  from run_kmeans_one[OF assms this, of 7 60] obtain idx where
    i: "idx < length [[0], [2::real]]" and r: "run_kmeans R [[0], [2]] 1 7 60 =
           Inr (replicate (length [[0], [2::real]]) 0, [[[0], [2]] ! idx],
                \<Sum>row\<leftarrow>[[0], [2]]. (l2_norm (map2 (-) row ([[0], [2]] ! idx)))\<^sup>2)"
    by blast
  from i have "idx = 0 \<or> idx = 1" by auto
  then have "(\<Sum>row\<leftarrow>[[0], [2::real]]. (l2_norm (map2 (-) row ([[0], [2]] ! idx)))\<^sup>2) = 4"
    by (auto simp: l2_norm_def)
  with r show ?thesis by (simp add: total_variance_example)
qed

theorem run_kmeans_one_cluster_inertia_witness:
  "\<exists>centers. run_kmeans cycle_rng [[0], [2]] 1 7 60 = Inr ([0, 0], centers, 4)
           \<and> total_variance [[0], [2]] = 2"
  using run_kmeans_one_cluster_inertia [of cycle_rng]
  by (simp add: rng_ok_def cycle_rng_def)

text \<open>
  Claim C5, as amended. Hole filling reads the mask as it was before the loop. A frame
  \<open>i\<close> is active afterwards exactly when it was active before, or the \<open>hole\<close> frames
  before it and the \<open>hole\<close> frames after it (12 frames, 0.12 s, in the pipeline) were
  all active. So a single inactive frame between two such windows is filled, and nothing
  else changes.
\<close>

theorem fill_holes_single_frames:
  "length (fill_holes hole m) = length m \<and>
   (\<forall>i<length m. fill_holes hole m ! i \<longleftrightarrow>
      m ! i \<or> (0 < hole \<and> hole \<le> i \<and> i + hole < length m
               \<and> (\<forall>j. i - hole \<le> j \<and> j < i \<longrightarrow> m ! j)
               \<and> (\<forall>j. i < j \<and> j \<le> i + hole \<longrightarrow> m ! j)))"
proof (cases "hole > 0 \<and> length m > 2 * hole")
  case False
  then have e: "fill_holes hole m = m" by (auto simp: fill_holes_def)
  from False have "\<And>i. \<not> (0 < hole \<and> hole \<le> i \<and> i + hole < length m)" by auto
  then have "\<forall>i<length m. m ! i \<longleftrightarrow>
      m ! i \<or> (0 < hole \<and> hole \<le> i \<and> i + hole < length m
               \<and> (\<forall>j. i - hole \<le> j \<and> j < i \<longrightarrow> m ! j)
               \<and> (\<forall>j. i < j \<and> j \<le> i + hole \<longrightarrow> m ! j))" by blast
  with e show ?thesis by simp
next
  case True
  then have e: "fill_holes hole m = foldl (fill_step hole m) m [hole..<length m - hole]"
    by (simp add: fill_holes_def)
  from foldl_fill[of m m "length m - hole" hole hole]
  have len: "length (fill_holes hole m) = length m"
    and nth: "\<And>i. i < length m \<Longrightarrow> fill_holes hole m ! i
        \<longleftrightarrow> m ! i \<or> (hole \<le> i \<and> i < length m - hole \<and> fills hole m i)"
    unfolding e by simp_all
  have "\<forall>i<length m. fill_holes hole m ! i \<longleftrightarrow>
      m ! i \<or> (0 < hole \<and> hole \<le> i \<and> i + hole < length m
               \<and> (\<forall>j. i - hole \<le> j \<and> j < i \<longrightarrow> m ! j)
               \<and> (\<forall>j. i < j \<and> j \<le> i + hole \<longrightarrow> m ! j))"
  proof (intro allI impI)
    fix i assume i: "i < length m"
    show "fill_holes hole m ! i \<longleftrightarrow>
      m ! i \<or> (0 < hole \<and> hole \<le> i \<and> i + hole < length m
               \<and> (\<forall>j. i - hole \<le> j \<and> j < i \<longrightarrow> m ! j)
               \<and> (\<forall>j. i < j \<and> j \<le> i + hole \<longrightarrow> m ! j))"
    proof (cases "hole \<le> i \<and> i + hole < length m")
      case False
      then have "\<not> (hole \<le> i \<and> i < length m - hole)" by linarith
      with nth[OF i] False show ?thesis by blast
    next
      case T: True
      then have r: "hole \<le> i \<and> i < length m - hole" by linarith
      from T fills_iff[of hole i m] have "fills hole m i \<longleftrightarrow> \<not> m ! i
           \<and> (\<forall>j. i - hole \<le> j \<and> j < i \<longrightarrow> m ! j)
           \<and> (\<forall>j. i < j \<and> j \<le> i + hole \<longrightarrow> m ! j)" by simp
      with nth[OF i] r T True show ?thesis by blast
    qed
  qed
  with len show ?thesis by simp
qed

theorem fill_holes_single_frames_witness:
  "fill_holes 12 (replicate 12 True @ [False] @ replicate 12 True) ! 12"
  using fill_holes_single_frames [of 12 "replicate 12 True @ [False] @ replicate 12 True"]
  by (auto simp: nth_append nth_Cons')

text \<open>
  The claim as stated fails: two inactive frames (0.02 s) between two windows of 12
  active frames are left as they are, for each of the two has the other in its window.
  With 70 active frames after the gap the detector drops the 12 frames before it as too
  short and returns the interval from 0.14 s, where the mask without the gap gives the
  interval from 0 s.
\<close>

theorem fill_holes_keeps_double_gap:
  "nat \<lfloor>0.12 / (real (160::nat) / real (16000::nat))\<rfloor> = 12 \<and>
   fill_holes 12 (replicate 12 True @ [False, False] @ replicate 12 True)
     = replicate 12 True @ [False, False] @ replicate 12 True \<and>
   regions_of_mask 16000 160 480 (replicate 12 True @ [False, False] @ replicate 70 True)
     = [(7 / 50, 43 / 50)] \<and>
   regions_of_mask 16000 160 480 (replicate 84 True) = [(0, 43 / 50)]"
  using regions_gap_example regions_full_example
  by (simp add: fill_holes_def fill_step_def np_all_def slice_def upt_rec nth_append nth_Cons')




text \<open>
  Claim C7. For every sample buffer and every speech interval \<open>0 \<le> start_s < end_s\<close>,
  \<open>extract_embedding\<close> returns a vector of 30 entries. When the samples cut out for the
  interval are fewer than 0.4 s (6400 samples) it is the zero vector; otherwise its
  Euclidean norm is 1. The branch that returns the feature without dividing it (a norm of
  at most \<open>1e-8\<close>) is never taken on such an interval, because the duration is one of
  the entries: nothing but the zero vector or a unit vector is returned. The two
  matrices are any of the shapes the pipeline builds (lemmas \<open>pipeline_mel_fb\<close> and
  \<open>build_dct_matrix_shape\<close>).
\<close>

theorem extract_embedding_unit_or_zero:
  assumes "list_all (\<lambda>r. length r = 512 div 2 + 1) mel_fb"
    and "list_all (\<lambda>r. length r = length mel_fb) dct" and "length dct = 13"
    and "0 \<le> start_s" and "start_s < end_s"
  shows "\<exists>v. extract_embedding audio 16000 start_s end_s mel_fb dct = Inr v \<and> length v = 30 \<and>
           (if length (py_slice (max 0 (py_int (start_s * 16000)))
                        (min (int (length audio)) (py_int (end_s * 16000))) audio) < 6400
            then v = replicate 30 0 else l2_norm v = 1)"
  using assms by (rule extract_embedding_shape)

theorem extract_embedding_unit_or_zero_witness:
  "\<exists>v. extract_embedding (replicate 6400 0) 16000 0 1 [replicate 257 1] (replicate 13 [1]) = Inr v
       \<and> length v = 30 \<and> l2_norm v = 1"
  using extract_embedding_unit_or_zero [of "[replicate 257 1]" "replicate 13 [1]" 0 1
      "replicate 6400 0"]
  by (simp add: py_slice_def slice_def py_int_def list_all_iff)





text \<open>
  Claim C10. Clustering and naming never change a time: every segment of the result of
  \<open>diarize\<close> begins at the start of a detected speech interval and ends at the end of
  a detected speech interval.
\<close>

theorem diarize_times_from_detection:
  assumes "rng_ok R"
  shows "\<exists>speech res. detect_speech_regions audio 16000 = Inr speech
           \<and> diarize R audio mn mx = Inr res
           \<and> list_all (\<lambda>s. seg_start s \<in> fst ` set speech \<and> seg_end s \<in> snd ` set speech)
               (segments res)"
  using assms
proof (cases rule: diarize_cases [where audio = audio and mn = mn and mx = mx])
  case (empty speech)
  then show ?thesis by (simp add: empty_result_def)
next
  case (speech speech regions)
  from assemble_total obtain res where res: "assemble regions = Inr res" by blast
  have "r_start ` set regions = fst ` set speech" "r_end ` set regions = snd ` set speech"
    using speech(3,4) by (metis set_map)+
  with assemble_times[OF res] speech(1,5) res show ?thesis
    by (simp add: list_all_iff)
qed

theorem diarize_times_from_detection_witness:
  "\<forall>audio mn mx. \<exists>speech res. detect_speech_regions audio 16000 = Inr speech
           \<and> diarize cycle_rng audio mn mx = Inr res
           \<and> list_all (\<lambda>s. seg_start s \<in> fst ` set speech \<and> seg_end s \<in> snd ` set speech)
               (segments res)"
  using diarize_times_from_detection [OF cycle_rng_ok] by blast

end
